theory Spec2Isabelle
  imports Complex_Main "HOL-Library.Word"
begin

unbundle bit_operations_syntax

section \<open>Container decoder (scripts/decode\_kiwi.cjs)\<close>

subsection \<open>Bytes and little-endian reads\<close>

text \<open>
  The input is a \<^verbatim>\<open>Uint8Array\<close>: a list of bytes. JavaScript numbers hold every integer
  below \<open>2 ^ 53\<close> exactly, so offsets and sizes are natural numbers and
  \<^verbatim>\<open>offset + size\<close> never wraps.
\<close>

type_synonym byte = "8 word"

datatype error = InvalidPrelude | RangeError | InsufficientChunks | MissingFzstd

datatype codec = DeflateRaw | Zstd

text \<open>\<^verbatim>\<open>FIG_KIWI_PRELUDE = 'fig-kiwi'\<close>, as the eight ASCII bytes it is compared with.\<close>

definition FIG_KIWI_PRELUDE :: "byte list" where
  "FIG_KIWI_PRELUDE = [0x66, 0x69, 0x67, 0x2D, 0x6B, 0x69, 0x77, 0x69]"

text \<open>\<^verbatim>\<open>ZSTD_MAGIC = 0xFD2FB528\<close>\<close>

definition ZSTD_MAGIC :: nat where
  "ZSTD_MAGIC = 0xFD2FB528"

text \<open>
  \<^verbatim>\<open>dv.getUint32(off, true)\<close>: the little-endian value of four bytes; a
  \<^verbatim>\<open>DataView\<close> throws a RangeError when the four bytes are not all inside the view
  (\<open>None\<close>).
\<close>

definition getUint32 :: "byte list \<Rightarrow> nat \<Rightarrow> nat option" where
  "getUint32 buf off =
     (if off + 4 \<le> length buf
      then Some (unat (buf ! off) + 256 * unat (buf ! (off + 1))
                 + 65536 * unat (buf ! (off + 2)) + 16777216 * unat (buf ! (off + 3)))
      else None)"

text \<open>
  The writer the framing property is stated with (\<^verbatim>\<open>setUint32(off, n, true)\<close>): the four
  little-endian bytes of \<open>n\<close>.
\<close>

definition putUint32 :: "nat \<Rightarrow> byte list" where
  "putUint32 n = [of_nat (n mod 256), of_nat (n div 256 mod 256),
                  of_nat (n div 65536 mod 256), of_nat (n div 16777216 mod 256)]"

text \<open>\<^verbatim>\<open>buf.slice(a, b)\<close> for \<open>a \<le> b\<close>.\<close>

definition slice :: "'a list \<Rightarrow> nat \<Rightarrow> nat \<Rightarrow> 'a list" where
  "slice buf a b = take (b - a) (drop a buf)"

subsection \<open>Chunk reader\<close>

text \<open>
  The loop of lines 60--71. The result carries the chunks pushed so far and whether the
  loop left through its \<^verbatim>\<open>break\<close> (the branch that prints
  \<^verbatim>\<open>Chunk size ... exceeds remaining data\<close>).
\<close>

function readChunks :: "byte list \<Rightarrow> nat \<Rightarrow> byte list list \<Rightarrow> error + (byte list list \<times> bool)" where
  "readChunks buf offset chunks =
     (if offset + 4 < length buf
      then (case getUint32 buf offset of
              None \<Rightarrow> Inl RangeError
            | Some sz \<Rightarrow>
                (if (offset + 4) + sz > length buf
                 then Inr (chunks, True)
                 else readChunks buf ((offset + 4) + sz)
                        (chunks @ [slice buf (offset + 4) ((offset + 4) + sz)])))
      else Inr (chunks, False))"
  by pat_completeness auto
termination
  by (relation "measure (\<lambda>(buf, offset, chunks). length buf - offset)") auto

declare readChunks.simps [simp del]

record figFile =
  version :: nat
  chunks :: "byte list list"
  truncated :: bool

text \<open>Lines 49--71: prelude check, version, chunk loop.\<close>

definition readFig :: "byte list \<Rightarrow> error + figFile" where
  "readFig buf =
     (if slice buf 0 (length FIG_KIWI_PRELUDE) \<noteq> FIG_KIWI_PRELUDE then Inl InvalidPrelude
      else (case getUint32 buf (length FIG_KIWI_PRELUDE) of
              None \<Rightarrow> Inl RangeError
            | Some v \<Rightarrow>
                (case readChunks buf (length FIG_KIWI_PRELUDE + 4) [] of
                   Inl e \<Rightarrow> Inl e
                 | Inr (cs, t) \<Rightarrow> Inr \<lparr>version = v, chunks = cs, truncated = t\<rparr>)))"

subsection \<open>Codec dispatch\<close>

text \<open>
  A typed-array read \<^verbatim>\<open>chunk[i]\<close> is \<^verbatim>\<open>undefined\<close> outside the array (\<open>None\<close>), and
  the bit operators turn \<^verbatim>\<open>undefined\<close> into 0.
\<close>

definition byteAt :: "byte list \<Rightarrow> nat \<Rightarrow> byte option" where
  "byteAt chunk i = (if i < length chunk then Some (chunk ! i) else None)"

definition toInt32 :: "byte option \<Rightarrow> 32 word" where
  "toInt32 v = (case v of None \<Rightarrow> 0 | Some b \<Rightarrow> ucast b)"

text \<open>
  \<^verbatim>\<open>isZstd\<close>, lines 93--97, with the list of indices it reads. The 32-bit word is the
  \<^verbatim>\<open>|\<close> of the shifted bytes; \<^verbatim>\<open>>>> 0\<close> reads it as unsigned.
\<close>

definition isZstdTraced :: "byte list \<Rightarrow> bool \<times> nat list" where
  "isZstdTraced chunk =
     (if length chunk < 4 then (False, [])
      else (unat (toInt32 (byteAt chunk 0) OR push_bit 8 (toInt32 (byteAt chunk 1))
                  OR push_bit 16 (toInt32 (byteAt chunk 2))
                  OR push_bit 24 (toInt32 (byteAt chunk 3))) = ZSTD_MAGIC,
            [0, 1, 2, 3]))"

definition isZstd :: "byte list \<Rightarrow> bool" where
  "isZstd chunk = fst (isZstdTraced chunk)"

definition isZstdReads :: "byte list \<Rightarrow> nat list" where
  "isZstdReads chunk = snd (isZstdTraced chunk)"

text \<open>
  Lines 99--111: which decompressor the message chunk goes to. \<open>fzstd\<close> says whether
  the optional module \<^verbatim>\<open>fzstd\<close> was loaded (line 31).
\<close>

definition messageCodec :: "bool \<Rightarrow> byte list \<Rightarrow> error + codec" where
  "messageCodec fzstd chunk =
     (if isZstd chunk then (if \<not> fzstd then Inl MissingFzstd else Inr Zstd)
      else Inr DeflateRaw)"

record decodePlan =
  planVersion :: nat
  schemaChunk :: "byte list"
  schemaCodec :: codec
  messageChunk :: "byte list"
  messageCodec' :: codec

text \<open>
  Lines 49--111 up to the calls of the decompressors (\<^verbatim>\<open>pako\<close> and \<^verbatim>\<open>fzstd\<close> are
  external): the chunks and the decompressor chosen for each. The failures of
  \<^verbatim>\<open>pako.inflateRaw\<close>, \<^verbatim>\<open>decodeBinarySchema\<close> and \<^verbatim>\<open>compileSchema\<close> on the schema chunk
  (lines 82--87), which run before the dispatch of the message chunk, are not modelled.
\<close>

definition decodeFig :: "bool \<Rightarrow> byte list \<Rightarrow> error + decodePlan" where
  "decodeFig fzstd buf =
     (case readFig buf of
        Inl e \<Rightarrow> Inl e
      | Inr f \<Rightarrow>
          (if length (chunks f) < 2 then Inl InsufficientChunks
           else (case messageCodec fzstd (chunks f ! 1) of
                   Inl e \<Rightarrow> Inl e
                 | Inr c \<Rightarrow> Inr \<lparr>planVersion = version f,
                                schemaChunk = chunks f ! 0, schemaCodec = DeflateRaw,
                                messageChunk = chunks f ! 1, messageCodec' = c\<rparr>)))"

text \<open>The buffer the framing property assembles: one chunk, and a whole file.\<close>

definition frame :: "byte list \<Rightarrow> byte list" where
  "frame c = putUint32 (length c) @ c"

definition assemble :: "nat \<Rightarrow> byte list list \<Rightarrow> byte list" where
  "assemble v cs = FIG_KIWI_PRELUDE @ putUint32 v @ concat (map frame cs)"

section \<open>Node graph and icon classifier (scripts/extract\_vectors.cjs)\<close>

subsection \<open>Decoded node records\<close>

text \<open>
  The fields of a decoded \<^verbatim>\<open>nodeChanges\<close> record that the scripts read. A field that
  may be missing is an option. Numbers are finite doubles, each of them a rational;
  comparison and \<^verbatim>\<open>Math.round\<close> are exact on doubles, so they are modelled on
  rationals as they are.
\<close>

record guid =
  sessionID :: nat
  localID :: nat

record color =
  colorR :: rat
  colorG :: rat
  colorB :: rat

record paint =
  paintColor :: "color option"
  paintOpacity :: "rat option"

record vec =
  vecX :: rat
  vecY :: rat

record matrix =
  m02 :: rat
  m12 :: rat

record parentIndex =
  parentGuid :: "guid option"
  position :: "string option"

record node =
  guid :: "guid option"
  parentIndex :: "parentIndex option"
  nodeType :: "string option"
  nodeName :: "string option"
  nodeSize :: "vec option"
  transform :: "matrix option"
  fillPaints :: "paint list option"
  strokePaints :: "paint list option"
  strokeWeight :: "rat option"
  opacity :: "rat option"
  vectorNetworkBlob :: "nat option"

subsection \<open>Helpers\<close>

text \<open>\<^verbatim>\<open>Math.round\<close>: the nearest integer, a half rounded up.\<close>

definition mathRound :: "rat \<Rightarrow> int" where
  "mathRound x = \<lfloor>x + 1 / 2\<rfloor>"

text \<open>\<^verbatim>\<open>v.toString(16)\<close> for an integer \<open>v\<close>, and \<^verbatim>\<open>padStart(2, '0')\<close>.\<close>

definition hexChar :: "nat \<Rightarrow> char" where
  "hexChar d = ''0123456789abcdef'' ! d"

fun hexDigits :: "nat \<Rightarrow> string" where
  "hexDigits n = (if n < 16 then [hexChar n] else hexDigits (n div 16) @ [hexChar (n mod 16)])"

declare hexDigits.simps [simp del]

definition toString16 :: "int \<Rightarrow> string" where
  "toString16 v = (if v < 0 then CHR ''-'' # hexDigits (nat (- v)) else hexDigits (nat v))"

definition padStart2 :: "string \<Rightarrow> string" where
  "padStart2 s = replicate (2 - length s) CHR ''0'' @ s"

text \<open>
  \<^verbatim>\<open>colorToHex\<close>, lines 169--175, for a colour that is present. The product
  \<^verbatim>\<open>v * 255\<close> is taken exactly here; JavaScript rounds it to a double before
  \<^verbatim>\<open>Math.round\<close> sees it.
\<close>

definition colorToHex :: "color \<Rightarrow> string" where
  "colorToHex c =
     CHR ''#'' # concat (map (\<lambda>v. padStart2 (toString16 v))
                     [mathRound (colorR c * 255), mathRound (colorG c * 255),
                      mathRound (colorB c * 255)])"

text \<open>
  \<^verbatim>\<open>guidKey\<close>, lines 177--179. The key string \<^verbatim>\<open>`${g.sessionID}:${g.localID}`\<close> of two
  decimal numerals around a colon determines the pair of numbers and is determined by
  it; the pair stands for the string.
\<close>

type_synonym key = "nat \<times> nat"

definition guidKey :: "guid option \<Rightarrow> key option" where
  "guidKey g = (case g of None \<Rightarrow> None | Some x \<Rightarrow> Some (sessionID x, localID x))"

text \<open>
  \<^verbatim>\<open>isTransparentBg\<close>, lines 181--186. The literal \<^verbatim>\<open>0.01\<close> is the double
  \<open>5764607523034235 / 2 ^ 59\<close>.
\<close>

definition isTransparentBg :: "node \<Rightarrow> bool" where
  "isTransparentBg n \<longleftrightarrow>
     nodeType n = Some ''ROUNDED_RECTANGLE''
     \<and> (case opacity n of None \<Rightarrow> False
         | Some x \<Rightarrow> x < 5764607523034235 / 576460752303423488)"

subsection \<open>Lookup maps\<close>

text \<open>
  \<^verbatim>\<open>nodeMap\<close> and \<^verbatim>\<open>childrenMap\<close>, lines 194--205 (and lines 34--44 of
  extract\_hierarchy.cjs, the same loop): one pass over the records, in input order.
\<close>

record graph =
  nodeMap :: "key \<rightharpoonup> node"
  childrenMap :: "key \<rightharpoonup> node list"

text \<open>The key of the parent a record names, when \<^verbatim>\<open>n.parentIndex && n.parentIndex.guid\<close>.\<close>

definition parentKey :: "node \<Rightarrow> key option" where
  "parentKey n = (case parentIndex n of None \<Rightarrow> None | Some pidx \<Rightarrow> guidKey (parentGuid pidx))"

text \<open>\<^verbatim>\<open>childrenMap[key] || []\<close>\<close>

definition childrenOf :: "graph \<Rightarrow> key \<Rightarrow> node list" where
  "childrenOf gr k = (case childrenMap gr k of None \<Rightarrow> [] | Some cs \<Rightarrow> cs)"

definition addNode :: "graph \<Rightarrow> node \<Rightarrow> graph" where
  "addNode gr n =
     (let gr1 = (case guidKey (guid n) of
                   None \<Rightarrow> gr
                 | Some k \<Rightarrow> gr\<lparr>nodeMap := (nodeMap gr)(k \<mapsto> n)\<rparr>)
      in (case parentKey n of
            None \<Rightarrow> gr1
          | Some pk \<Rightarrow> gr1\<lparr>childrenMap := (childrenMap gr1)(pk \<mapsto> childrenOf gr1 pk @ [n])\<rparr>))"

definition emptyGraph :: graph where
  "emptyGraph = \<lparr>nodeMap = Map.empty, childrenMap = Map.empty\<rparr>"

definition buildMaps :: "node list \<Rightarrow> graph" where
  "buildMaps nodes = foldl addNode emptyGraph nodes"

subsection \<open>Shape trees\<close>

record fillEntry =
  fillColor :: string
  fillOpacity :: rat

record strokeEntry =
  strokeColor :: string
  strokeWidth :: rat

datatype shape =
  Shape (shapeType: "string option") (shapeName: string) (shapeGuid: key)
        (shapeSize: "(int \<times> int) option") (shapePosition: "(int \<times> int) option")
        (fills: "fillEntry list") (strokes: "strokeEntry list")
        (shapeOpacity: rat) (hasBlob: bool) (children: "shape list")

text \<open>The object literal of lines 253--270, with the children filled in.\<close>

definition shapeFills :: "node \<Rightarrow> fillEntry list" where
  "shapeFills n =
     List.map_filter
       (\<lambda>p. case paintColor p of
               None \<Rightarrow> None
             | Some c \<Rightarrow> Some \<lparr>fillColor = colorToHex c,
                              fillOpacity = (case paintOpacity p of None \<Rightarrow> 1 | Some x \<Rightarrow> x)\<rparr>)
       (case fillPaints n of None \<Rightarrow> [] | Some ps \<Rightarrow> ps)"

definition shapeStrokes :: "node \<Rightarrow> strokeEntry list" where
  "shapeStrokes n =
     List.map_filter
       (\<lambda>p. case paintColor p of
               None \<Rightarrow> None
             | Some c \<Rightarrow> Some \<lparr>strokeColor = colorToHex c,
                              strokeWidth = (case strokeWeight n of
                                               None \<Rightarrow> 1
                                             | Some w \<Rightarrow> if w = 0 then 1 else w)\<rparr>)
       (case strokePaints n of None \<Rightarrow> [] | Some ps \<Rightarrow> ps)"

definition shapeOf :: "node \<Rightarrow> key \<Rightarrow> shape list \<Rightarrow> shape" where
  "shapeOf n k cs =
     Shape (nodeType n)
           (case nodeName n of None \<Rightarrow> [] | Some s \<Rightarrow> s)
           k
           (case nodeSize n of None \<Rightarrow> None
            | Some s \<Rightarrow> Some (mathRound (vecX s), mathRound (vecY s)))
           (case transform n of None \<Rightarrow> None
            | Some t \<Rightarrow> Some (mathRound (m02 t), mathRound (m12 t)))
           (shapeFills n)
           (shapeStrokes n)
           (case opacity n of None \<Rightarrow> 1 | Some x \<Rightarrow> x)
           (case vectorNetworkBlob n of None \<Rightarrow> False | Some v \<Rightarrow> v \<noteq> 0)
           cs"

text \<open>
  The results of a loop of calls that may each fail to return: \<open>None\<close> as soon as one
  call does not return, the list of the results otherwise.
\<close>

primrec mapOption :: "('a \<Rightarrow> 'b option) \<Rightarrow> 'a list \<Rightarrow> 'b list option" where
  "mapOption f [] = Some []"
| "mapOption f (x # xs) =
     Option.bind (f x) (\<lambda>y. Option.bind (mapOption f xs) (\<lambda>ys. Some (y # ys)))"

lemma mapOption_mono [partial_function_mono]:
  fixes C :: "'a \<Rightarrow> ('b \<Rightarrow> 'c option) \<Rightarrow> 'd option"
  assumes "\<And>y. mono_option (C y)"
  shows "mono_option (\<lambda>f. mapOption (\<lambda>y. C y f) B)"
  using assms by (induct B) (auto intro!: partial_function_mono)

text \<open>
  \<^verbatim>\<open>buildShapeTree\<close>, lines 246--282. The recursion follows \<^verbatim>\<open>childrenMap\<close> with no
  bound (\<^verbatim>\<open>depth\<close> is only passed on), so it need not return: the outer option is
  \<open>None\<close> when it does not, and the inner one is the \<^verbatim>\<open>null\<close> of the source.
  The model has no call stack: a host aborts with a \<^verbatim>\<open>RangeError\<close> once the nesting
  exceeds its stack, which is what happens to a recursion that does not end, and also
  to one that ends too deep for the host.
\<close>

partial_function (option) buildShapeTree :: "graph \<Rightarrow> key \<Rightarrow> nat \<Rightarrow> shape option option" where
  "buildShapeTree gr k depth =
     (case nodeMap gr k of
        None \<Rightarrow> Some None
      | Some n \<Rightarrow>
          if isTransparentBg n then Some None
          else Option.bind
                 (mapOption (\<lambda>c. case guidKey (guid c) of
                                    None \<Rightarrow> Some None
                                  | Some ck \<Rightarrow> buildShapeTree gr ck (depth + 1))
                            (childrenOf gr k))
                 (\<lambda>rs. Some (Some (shapeOf n k (List.map_filter id rs)))))"

text \<open>
  \<^verbatim>\<open>extractPrimaryColor\<close>, lines 289--331, on a shape tree that is not \<^verbatim>\<open>null\<close>. The
  two loops over the children are \<open>firstChildColor\<close>, with and without the skip of
  \<^verbatim>\<open>ROUNDED_RECTANGLE\<close>; \<^verbatim>\<open>if (color)\<close> holds for a string that is not empty.
\<close>

fun extractPrimaryColor :: "shape \<Rightarrow> string option"
  and firstChildColor :: "bool \<Rightarrow> shape list \<Rightarrow> string option" where
  "extractPrimaryColor (Shape ty nm g sz pos fs ss opa hb cs) =
     (if ty = Some ''BOOLEAN_OPERATION'' \<and> length fs > 0 then Some (fillColor (fs ! 0))
      else if ty = Some ''VECTOR'' \<and> length fs > 0 then Some (fillColor (fs ! 0))
      else if ty = Some ''VECTOR'' \<and> length fs = 0 \<and> length ss > 0
        then Some (strokeColor (ss ! 0))
      else if ty = Some ''ELLIPSE'' \<and> length ss > 0 then Some (strokeColor (ss ! 0))
      else (case firstChildColor True cs of
              Some col \<Rightarrow> Some col
            | None \<Rightarrow>
                (case firstChildColor False cs of
                   Some col \<Rightarrow> Some col
                 | None \<Rightarrow> if length ss > 0 then Some (strokeColor (ss ! 0)) else None)))"
| "firstChildColor skip [] = None"
| "firstChildColor skip (c # cs) =
     (if skip \<and> shapeType c = Some ''ROUNDED_RECTANGLE'' then firstChildColor skip cs
      else (case extractPrimaryColor c of
              None \<Rightarrow> firstChildColor skip cs
            | Some col \<Rightarrow> if col \<noteq> [] then Some col else firstChildColor skip cs))"

text \<open>
  \<^verbatim>\<open>collectColors\<close>, lines 336--345: the array \<^verbatim>\<open>colors\<close> is passed in and returned.
\<close>

definition pushColor :: "string list \<Rightarrow> string \<Rightarrow> string list" where
  "pushColor colors c = (if c \<noteq> [] \<and> c \<notin> set colors then colors @ [c] else colors)"

fun collectColors :: "shape \<Rightarrow> string list \<Rightarrow> string list" where
  "collectColors (Shape ty nm g sz pos fs ss opa hb cs) colors =
     foldl (\<lambda>acc c. collectColors c acc)
           (foldl pushColor (foldl pushColor colors (map fillColor fs)) (map strokeColor ss))
           cs"

text \<open>\<^verbatim>\<open>countVectors\<close>, lines 350--355.\<close>

fun countVectors :: "shape \<Rightarrow> nat" where
  "countVectors (Shape ty nm g sz pos fs ss opa hb cs) =
     foldl (\<lambda>count c. count + countVectors c) (if ty = Some ''VECTOR'' then 1 else 0) cs"

text \<open>\<^verbatim>\<open>hasVectorDescendant\<close>, lines 382--391.\<close>

fun hasVectorDescendant :: "graph \<Rightarrow> key \<Rightarrow> nat \<Rightarrow> bool" where
  "hasVectorDescendant gr k 0 = False"
| "hasVectorDescendant gr k (Suc d) =
     list_ex (\<lambda>c. nodeType c = Some ''VECTOR'' \<or> nodeType c = Some ''BOOLEAN_OPERATION''
                  \<or> (case guidKey (guid c) of
                        None \<Rightarrow> False
                      | Some ck \<Rightarrow> hasVectorDescendant gr ck d))
             (childrenOf gr k)"

text \<open>The loop of lines 393--432: one pass of its body, and the whole loop.\<close>

record icon =
  iconName :: "string option"
  iconGuid :: key
  iconSize :: "int \<times> int"
  parentName :: "string option"
  primaryColor :: "string option"
  allColors :: "string list"
  vectorCount :: nat
  shapeTree :: shape

text \<open>
  The body for one \<^verbatim>\<open>FRAME\<close> record: \<open>Some None\<close> where the source returns early,
  \<open>Some (Some ic)\<close> where it pushes \<open>ic\<close>, \<open>None\<close> where \<^verbatim>\<open>buildShapeTree\<close> does
  not return.
\<close>

definition iconOf :: "graph \<Rightarrow> node \<Rightarrow> icon option option" where
  "iconOf gr n =
     (case nodeSize n of
        None \<Rightarrow> Some None
      | Some s \<Rightarrow>
          (let w = mathRound (vecX s); h = mathRound (vecY s) in
           if w > 32 \<or> h > 32 then Some None
           else (case guidKey (guid n) of
                   None \<Rightarrow> Some None
                 | Some k \<Rightarrow>
                     if \<not> hasVectorDescendant gr k 5 then Some None
                     else Option.bind (buildShapeTree gr k 0)
                       (\<lambda>st. case st of
                          None \<Rightarrow> Some None
                        | Some t \<Rightarrow>
                            Some (Some \<lparr>iconName = nodeName n, iconGuid = k, iconSize = (w, h),
                                        parentName =
                                          (case parentKey n of
                                             None \<Rightarrow> None
                                           | Some pk \<Rightarrow>
                                               (case nodeMap gr pk of
                                                  None \<Rightarrow> None
                                                | Some p \<Rightarrow> nodeName p)),
                                        primaryColor = extractPrimaryColor t,
                                        allColors = collectColors t [],
                                        vectorCount = countVectors t,
                                        shapeTree = t\<rparr>)))))"

text \<open>
  The tests of the body before the shape tree is built (lines 396--406): the key of
  the record when none of the early returns is taken. \<open>rootTree\<close> is the call of line
  409 for a record.
\<close>

definition candidateKey :: "graph \<Rightarrow> node \<Rightarrow> key option" where
  "candidateKey gr n =
     (case nodeSize n of
        None \<Rightarrow> None
      | Some s \<Rightarrow>
          (let w = mathRound (vecX s); h = mathRound (vecY s) in
           if w > 32 \<or> h > 32 then None
           else (case guidKey (guid n) of
                   None \<Rightarrow> None
                 | Some k \<Rightarrow> if \<not> hasVectorDescendant gr k 5 then None else Some k)))"

definition rootTree :: "graph \<Rightarrow> node \<Rightarrow> shape option option" where
  "rootTree gr n = (case guidKey (guid n) of None \<Rightarrow> Some None | Some k \<Rightarrow> buildShapeTree gr k 0)"

fun iconLoop :: "graph \<Rightarrow> node list \<Rightarrow> icon list \<Rightarrow> icon list option" where
  "iconLoop gr [] acc = Some acc"
| "iconLoop gr (n # ns) acc =
     Option.bind (iconOf gr n)
       (\<lambda>r. iconLoop gr ns (case r of None \<Rightarrow> acc | Some ic \<Rightarrow> acc @ [ic]))"

definition findIcons :: "node list \<Rightarrow> icon list option" where
  "findIcons nodes =
     iconLoop (buildMaps nodes) (filter (\<lambda>n. nodeType n = Some ''FRAME'') nodes) []"

subsection \<open>Position keys (scripts/extract\_hierarchy.cjs)\<close>

text \<open>
  The key by which \<^verbatim>\<open>printTree\<close> (lines 97--104) compares two children:
  \<^verbatim>\<open>parentIndex.position\<close>, with \<^verbatim>\<open>''\<close> for a missing one. The comparison itself is
  \<^verbatim>\<open>String.prototype.localeCompare\<close>, which the host's locale defines; it is not
  modelled.
\<close>

definition posKey :: "node \<Rightarrow> string" where
  "posKey n = (case parentIndex n of
                 None \<Rightarrow> []
               | Some pidx \<Rightarrow> (case position pidx of None \<Rightarrow> [] | Some s \<Rightarrow> s))"

subsection \<open>Example records\<close>

text \<open>
  The records of the concrete instances below: a record with no field set, a record
  with an identifier \<open>0:i\<close>, an optional parent \<open>0:j\<close> with a position, and a type; and
  the same with a size.
\<close>

definition bareNode :: node where
  "bareNode = \<lparr>guid = None, parentIndex = None, nodeType = None, nodeName = None,
               nodeSize = None, transform = None, fillPaints = None, strokePaints = None,
               strokeWeight = None, opacity = None, vectorNetworkBlob = None\<rparr>"

definition mkNode :: "nat \<Rightarrow> nat option \<Rightarrow> string \<Rightarrow> string \<Rightarrow> node" where
  "mkNode i p ty pos =
     bareNode\<lparr>guid := Some \<lparr>sessionID = 0, localID = i\<rparr>,
              parentIndex := (case p of None \<Rightarrow> None
                              | Some j \<Rightarrow> Some \<lparr>parentGuid = Some \<lparr>sessionID = 0, localID = j\<rparr>,
                                               position = Some pos\<rparr>),
              nodeType := Some ty\<rparr>"

definition sized :: "node \<Rightarrow> rat \<Rightarrow> rat \<Rightarrow> node" where
  "sized n w h = n\<lparr>nodeSize := Some \<lparr>vecX = w, vecY = h\<rparr>\<rparr>"

definition painted :: "node \<Rightarrow> rat option \<Rightarrow> color list \<Rightarrow> color list \<Rightarrow> node" where
  "painted n opa fs ss =
     n\<lparr>opacity := opa,
       fillPaints := Some (map (\<lambda>c. \<lparr>paintColor = Some c, paintOpacity = None\<rparr>) fs),
       strokePaints := Some (map (\<lambda>c. \<lparr>paintColor = Some c, paintOpacity = None\<rparr>) ss)\<rparr>"

definition rgb :: "rat \<Rightarrow> rat \<Rightarrow> rat \<Rightarrow> color" where
  "rgb x y z = \<lparr>colorR = x, colorG = y, colorB = z\<rparr>"

text \<open>
  A node list with a structural anomaly: the frame \<open>0:7\<close> names itself as its parent,
  and has a vector child.
\<close>

definition selfParented :: "node list" where
  "selfParented = [sized (mkNode 7 (Some 7) ''FRAME'' []) 24 24, mkNode 8 (Some 7) ''VECTOR'' []]"


text \<open>
  A frame with a transparent background rectangle \<open>0:8\<close> that has a vector child
  \<open>0:9\<close>, and a visible vector \<open>0:10\<close>; and the shape tree the code builds for it.
\<close>

definition hiddenVector :: "node list" where
  "hiddenVector =
     [sized (mkNode 7 None ''FRAME'' []) 24 24,
      painted (mkNode 8 (Some 7) ''ROUNDED_RECTANGLE'' ''a'') (Some (1 / 10000)) [rgb 1 1 1] [],
      painted (mkNode 9 (Some 8) ''VECTOR'' ''a'') (Some 1) [rgb 1 0 0] [],
      painted (mkNode 10 (Some 7) ''VECTOR'' ''b'') None [rgb 0 0 1] []]"

definition hiddenVectorTree :: shape where
  "hiddenVectorTree =
     Shape (Some ''FRAME'') [] (0, 7) (Some (24, 24)) None [] [] 1 False
       [Shape (Some ''VECTOR'') [] (0, 10) None None
          [\<lparr>fillColor = ''#0000ff'', fillOpacity = 1\<rparr>] [] 1 False []]"


text \<open>
  A frame 32.25 wide with a vector child, and the shape tree the code builds for it.
\<close>

definition wideFrame :: "node list" where
  "wideFrame = [sized (mkNode 7 None ''FRAME'' []) (129 / 4) 10, mkNode 8 (Some 7) ''VECTOR'' []]"

definition wideFrameTree :: shape where
  "wideFrameTree =
     Shape (Some ''FRAME'') [] (0, 7) (Some (32, 10)) None [] [] 1 False
       [Shape (Some ''VECTOR'') [] (0, 8) None None [] [] 1 False []]"

subsection \<open>Predicates of the properties\<close>

text \<open>
  \<open>builtFrom gr t\<close>: every node of the shape tree \<open>t\<close> carries the type, fills and
  strokes of the record stored under its identifier, that record is not a transparent
  background, and every node below the root is listed among the children of its
  parent in the tree. \<open>treeColors t\<close>: the colours of the fills and strokes in \<open>t\<close>.
\<close>

fun builtFrom :: "graph \<Rightarrow> shape \<Rightarrow> bool" where
  "builtFrom gr (Shape ty nm g sz pos fs ss opa hb cs) \<longleftrightarrow>
     (case nodeMap gr g of
        None \<Rightarrow> False
      | Some n \<Rightarrow> \<not> isTransparentBg n \<and> ty = nodeType n \<and> fs = shapeFills n
                  \<and> ss = shapeStrokes n)
     \<and> list_all (\<lambda>c. list_ex (\<lambda>m. guidKey (guid m) = Some (shapeGuid c)) (childrenOf gr g)
                      \<and> builtFrom gr c) cs"

fun treeColors :: "shape \<Rightarrow> string set" where
  "treeColors (Shape ty nm g sz pos fs ss opa hb cs) =
     set (map fillColor fs) \<union> set (map strokeColor ss) \<union> (\<Union>c\<in>set cs. treeColors c)"

text \<open>
  \<open>descendantAt gr k m c\<close>: the record \<open>c\<close> is \<open>m\<close> parent-to-child hops below the
  identifier \<open>k\<close>. \<open>candidateRoot\<close> is the rule for a candidate root as the amended
  claim C9 states it.
\<close>

inductive descendantAt :: "graph \<Rightarrow> key \<Rightarrow> nat \<Rightarrow> node \<Rightarrow> bool" where
  child: "c \<in> set (childrenOf gr k) \<Longrightarrow> descendantAt gr k (Suc 0) c"
| step: "c \<in> set (childrenOf gr k) \<Longrightarrow> guidKey (guid c) = Some ck
         \<Longrightarrow> descendantAt gr ck m c' \<Longrightarrow> descendantAt gr k (Suc m) c'"

definition isVectorKind :: "node \<Rightarrow> bool" where
  "isVectorKind c \<longleftrightarrow> nodeType c = Some ''VECTOR'' \<or> nodeType c = Some ''BOOLEAN_OPERATION''"

definition candidateRoot :: "graph \<Rightarrow> node \<Rightarrow> bool" where
  "candidateRoot gr n \<longleftrightarrow>
     nodeType n = Some ''FRAME''
     \<and> (case nodeSize n of
           None \<Rightarrow> False
         | Some s \<Rightarrow> mathRound (vecX s) \<le> 32 \<and> mathRound (vecY s) \<le> 32)
     \<and> (case guidKey (guid n) of
           None \<Rightarrow> False
         | Some k \<Rightarrow> (\<exists>m c. 1 \<le> m \<and> m \<le> 5 \<and> descendantAt gr k m c \<and> isVectorKind c))"

text \<open>
  \<open>storedVisible gr n\<close>: the record stored under the identifier of \<open>n\<close> is not a
  transparent background. \<open>passes\<close>: the tests of the loop body as the code runs them,
  with that of the stored record.
\<close>

definition storedVisible :: "graph \<Rightarrow> node \<Rightarrow> bool" where
  "storedVisible gr n \<longleftrightarrow>
     (case guidKey (guid n) of
        None \<Rightarrow> False
      | Some k \<Rightarrow> (case nodeMap gr k of None \<Rightarrow> False | Some s \<Rightarrow> \<not> isTransparentBg s))"

definition passes :: "graph \<Rightarrow> node \<Rightarrow> bool" where
  "passes gr n \<longleftrightarrow>
     (case nodeSize n of
           None \<Rightarrow> False
         | Some s \<Rightarrow> mathRound (vecX s) \<le> 32 \<and> mathRound (vecY s) \<le> 32)
     \<and> (case guidKey (guid n) of
           None \<Rightarrow> False
         | Some k \<Rightarrow> hasVectorDescendant gr k 5
             \<and> (case nodeMap gr k of None \<Rightarrow> False | Some s \<Rightarrow> \<not> isTransparentBg s))"

text \<open>
  The priority rule of the primary colour, in the words of the specification: a
  result counts as a colour when it is a string that is not empty; \<open>firstYield visit rs\<close>
  is the colour of the first child, in order, that is visited and yields one.
\<close>

definition yields :: "string option \<Rightarrow> bool" where
  "yields c \<longleftrightarrow> (case c of None \<Rightarrow> False | Some s \<Rightarrow> s \<noteq> [])"

definition firstYield :: "(shape \<Rightarrow> bool) \<Rightarrow> (shape \<times> string option) list \<Rightarrow> string option" where
  "firstYield visit rs =
     (case find (\<lambda>(c, col). visit c \<and> yields col) rs of None \<Rightarrow> None | Some (c, col) \<Rightarrow> col)"

fun primaryColorRule :: "shape \<Rightarrow> string option" where
  "primaryColorRule (Shape ty nm g sz pos fs ss opa hb cs) =
     (if ty = Some ''BOOLEAN_OPERATION'' \<and> fs \<noteq> [] then Some (fillColor (hd fs))
      else if ty = Some ''VECTOR'' \<and> fs \<noteq> [] then Some (fillColor (hd fs))
      else if ty = Some ''VECTOR'' \<and> ss \<noteq> [] then Some (strokeColor (hd ss))
      else if ty = Some ''ELLIPSE'' \<and> ss \<noteq> [] then Some (strokeColor (hd ss))
      else (let rs = map (\<lambda>c. (c, primaryColorRule c)) cs in
            if yields (firstYield (\<lambda>c. shapeType c \<noteq> Some ''ROUNDED_RECTANGLE'') rs)
              then firstYield (\<lambda>c. shapeType c \<noteq> Some ''ROUNDED_RECTANGLE'') rs
            else if yields (firstYield (\<lambda>c. True) rs) then firstYield (\<lambda>c. True) rs
            else if ss \<noteq> [] then Some (strokeColor (hd ss))
            else None))"

section \<open>Properties of the container decoder\<close>

lemma le32_sum:
  assumes "n < 4294967296"
  shows "n mod 256 + 256 * (n div 256 mod 256) + 65536 * (n div 65536 mod 256)
         + 16777216 * (n div 16777216 mod 256) = (n::nat)"
proof -
  have d3: "n div 16777216 mod 256 = n div 16777216" using assms by simp
  have e2: "n div 16777216 = n div 65536 div 256" by (simp add: div_mult2_eq[symmetric])
  have e1: "n div 65536 = n div 256 div 256" by (simp add: div_mult2_eq[symmetric])
  have s2: "n div 65536 = n div 65536 mod 256 + 256 * (n div 16777216)"
    unfolding e2 by simp
  have s1: "n div 256 = n div 256 mod 256 + 256 * (n div 65536)"
    unfolding e1 by simp
  have s0: "n = n mod 256 + 256 * (n div 256)" by simp
  show ?thesis using d3 s2 s1 s0 by linarith
qed

lemma unat_byte: "unat (of_nat (k mod 256) :: byte) = k mod 256"
  by (simp add: unat_of_nat)

lemma nth_mid4:
  "(pre @ [a, b, c, d] @ rest) ! length pre = (a::'a)"
  "(pre @ [a, b, c, d] @ rest) ! (length pre + 1) = b"
  "(pre @ [a, b, c, d] @ rest) ! (length pre + 2) = c"
  "(pre @ [a, b, c, d] @ rest) ! (length pre + 3) = d"
  by (simp_all add: nth_append)

lemma length_putUint32: "length (putUint32 n) = 4"
  by (simp add: putUint32_def)

lemma getUint32_put:
  assumes "n < 4294967296"
  shows "getUint32 (pre @ putUint32 n @ rest) (length pre) = Some n"
proof -
  have len: "length pre + 4 \<le> length (pre @ putUint32 n @ rest)"
    by (simp add: length_putUint32)
  show ?thesis
    unfolding getUint32_def
    apply (simp only: len if_True)
    apply (simp only: putUint32_def nth_mid4 unat_byte le32_sum[OF assms])
    done
qed

lemma byte_lt: "unat (b::byte) < 256"
  using unsigned_less[of b, where ?'a = nat] by simp

lemma magic_sum:
  "(ucast (b0::byte) :: 32 word) OR push_bit 8 (ucast (b1::byte)) OR push_bit 16 (ucast (b2::byte))
     OR push_bit 24 (ucast (b3::byte))
   = ucast b0 + (push_bit 8 (ucast b1) + (push_bit 16 (ucast b2) + push_bit 24 (ucast b3)))"
proof -
  have d2: "(push_bit 16 (ucast b2) :: 32 word) AND push_bit 24 (ucast b3) = 0"
    by (auto simp: bit_eq_iff bit_simps dest: bit_imp_le_length)
  have d1: "(push_bit 8 (ucast b1) :: 32 word)
            AND (push_bit 16 (ucast b2) OR push_bit 24 (ucast b3)) = 0"
    by (auto simp: bit_eq_iff bit_simps dest: bit_imp_le_length)
  have d0: "(ucast b0 :: 32 word)
            AND (push_bit 8 (ucast b1) OR (push_bit 16 (ucast b2) OR push_bit 24 (ucast b3))) = 0"
    by (auto simp: bit_eq_iff bit_simps dest: bit_imp_le_length)
  show ?thesis
    by (simp only: disjunctive_add_eq_or[OF d2] disjunctive_add_eq_or[OF d1]
          disjunctive_add_eq_or[OF d0] or.assoc)
qed

lemma magic_unat:
  "unat ((ucast (b0::byte) :: 32 word) OR push_bit 8 (ucast (b1::byte))
         OR push_bit 16 (ucast (b2::byte)) OR push_bit 24 (ucast (b3::byte)))
   = unat b0 + 256 * unat b1 + 65536 * unat b2 + 16777216 * unat b3"
proof -
  define m where "m = unat b0 + 256 * unat b1 + 65536 * unat b2 + 16777216 * unat b3"
  have "(of_nat m :: 32 word)
        = ucast b0 + (push_bit 8 (ucast b1) + (push_bit 16 (ucast b2) + push_bit 24 (ucast b3)))"
    unfolding m_def by (simp add: push_bit_eq_mult)
  then have eq: "(ucast b0 :: 32 word) OR push_bit 8 (ucast b1) OR push_bit 16 (ucast b2)
                 OR push_bit 24 (ucast b3) = of_nat m"
    by (simp only: magic_sum)
  have "m < 4294967296"
    unfolding m_def using byte_lt[of b0] byte_lt[of b1] byte_lt[of b2] byte_lt[of b3]
    by linarith
  then have "unat (of_nat m :: 32 word) = m" by (simp add: unat_of_nat)
  then show ?thesis unfolding eq m_def .
qed

text \<open>
  The magic test is the comparison of the chunk's first four bytes, read as a
  little-endian unsigned 32-bit integer, with \<open>ZSTD_MAGIC\<close>.
\<close>

lemma isZstd_iff: "isZstd chunk \<longleftrightarrow> getUint32 chunk 0 = Some ZSTD_MAGIC"
proof (cases "length chunk < 4")
  case True
  then show ?thesis by (simp add: isZstd_def isZstdTraced_def getUint32_def)
next
  case False
  then have b: "byteAt chunk 0 = Some (chunk ! 0)" "byteAt chunk 1 = Some (chunk ! 1)"
    "byteAt chunk 2 = Some (chunk ! 2)" "byteAt chunk 3 = Some (chunk ! 3)"
    by (auto simp: byteAt_def)
  from False have len: "\<not> length chunk < 4" "4 \<le> length chunk" by auto
  have "isZstd chunk =
        (unat ((ucast (chunk ! 0) :: 32 word) OR push_bit 8 (ucast (chunk ! 1))
               OR push_bit 16 (ucast (chunk ! 2)) OR push_bit 24 (ucast (chunk ! 3))) = ZSTD_MAGIC)"
    unfolding isZstd_def isZstdTraced_def
    by (simp only: len if_False fst_conv b toInt32_def option.case)
  also have "\<dots> = (getUint32 chunk 0 = Some ZSTD_MAGIC)"
    unfolding getUint32_def magic_unat
    by (simp only: len if_True option.inject add_0)
  finally show ?thesis .
qed


lemma length_frame: "length (frame c) = 4 + length c"
  by (simp add: frame_def length_putUint32)

lemma frames_nonempty: "cs \<noteq> [] \<Longrightarrow> 4 \<le> length (concat (map frame cs))"
  by (cases cs) (simp_all add: length_frame)

lemma slice_mid: "slice (pre @ c @ rest) (length pre) (length pre + length c) = c"
  by (simp add: slice_def)

lemma readChunks_step:
  assumes sz: "length c < 4294967296" and more: "c \<noteq> [] \<or> rest \<noteq> []"
  shows "readChunks (pre @ frame c @ rest) (length pre) acc
         = readChunks ((pre @ frame c) @ rest) (length (pre @ frame c)) (acc @ [c])"
proof -
  let ?buf = "pre @ frame c @ rest"
  have buf: "?buf = pre @ putUint32 (length c) @ (c @ rest)" by (simp add: frame_def)
  have g: "getUint32 ?buf (length pre) = Some (length c)"
    unfolding buf by (rule getUint32_put[OF sz])
  have c1: "length pre + 4 < length ?buf" using more by (auto simp: length_frame)
  have c2: "\<not> length pre + 4 + length c > length ?buf" by (simp add: length_frame)
  have buf2: "?buf = (pre @ putUint32 (length c)) @ c @ rest" by (simp add: frame_def)
  have sl: "slice ?buf (length pre + 4) (length pre + 4 + length c) = c"
    unfolding buf2 using slice_mid[of "pre @ putUint32 (length c)" c rest]
    by (simp add: length_putUint32)
  show ?thesis
    apply (subst readChunks.simps)
    apply (simp only: c1 c2 g sl if_True if_False option.case)
    apply (simp add: length_frame add.assoc)
    done
qed

lemma readChunks_frames:
  assumes "\<forall>c\<in>set cs. length c < 4294967296"
    and "cs \<noteq> [] \<longrightarrow> last cs \<noteq> [] \<or> rest \<noteq> []"
  shows "readChunks (pre @ concat (map frame cs) @ rest) (length pre) acc
         = readChunks ((pre @ concat (map frame cs)) @ rest)
             (length (pre @ concat (map frame cs))) (acc @ cs)"
  using assms
proof (induction cs arbitrary: pre acc)
  case Nil
  then show ?case by simp
next
  case (Cons c cs)
  have sz: "length c < 4294967296" using Cons.prems(1) by simp
  have more: "c \<noteq> [] \<or> concat (map frame cs) @ rest \<noteq> []"
  proof (cases "cs = []")
    case True
    then show ?thesis using Cons.prems(2) by simp
  next
    case False
    have "length (concat (map frame cs)) \<noteq> 0" using frames_nonempty[OF False] by linarith
    then have "concat (map frame cs) \<noteq> []" by (simp only: length_0_conv not_False_eq_True)
    then show ?thesis by (metis append_is_Nil_conv)
  qed
  have p2: "cs \<noteq> [] \<longrightarrow> last cs \<noteq> [] \<or> rest \<noteq> []" using Cons.prems(2) by auto
  have p1: "\<forall>c\<in>set cs. length c < 4294967296" using Cons.prems(1) by simp
  have "readChunks (pre @ concat (map frame (c # cs)) @ rest) (length pre) acc
        = readChunks (pre @ frame c @ (concat (map frame cs) @ rest)) (length pre) acc"
    by simp
  also have "\<dots> = readChunks ((pre @ frame c) @ (concat (map frame cs) @ rest))
                      (length (pre @ frame c)) (acc @ [c])"
    by (rule readChunks_step[OF sz more])
  also have "\<dots> = readChunks (((pre @ frame c) @ concat (map frame cs)) @ rest)
             (length ((pre @ frame c) @ concat (map frame cs))) ((acc @ [c]) @ cs)"
    by (rule Cons.IH[OF p1 p2])
  finally show ?case by simp
qed

lemma readChunks_stop:
  assumes "length rest \<le> 4"
  shows "readChunks (pre @ rest) (length pre) acc = Inr (acc, False)"
  using assms by (subst readChunks.simps) simp

lemma readChunks_break:
  assumes "L < 4294967296" "length rest < L" "rest \<noteq> []"
  shows "readChunks (pre @ putUint32 L @ rest) (length pre) acc = Inr (acc, True)"
proof -
  have g: "getUint32 (pre @ putUint32 L @ rest) (length pre) = Some L"
    by (rule getUint32_put[OF assms(1)])
  show ?thesis
    apply (subst readChunks.simps)
    using assms(2,3) by (simp add: g length_putUint32)
qed

lemma readChunks_Inr: "readChunks buf off acc \<noteq> Inl e"
proof (induction buf off acc rule: readChunks.induct)
  case (1 buf offset chunks)
  show ?case
  proof (cases "offset + 4 < length buf")
    case False
    then show ?thesis by (subst readChunks.simps) simp
  next
    case True
    then obtain sz where g: "getUint32 buf offset = Some sz"
      by (auto simp: getUint32_def)
    show ?thesis
    proof (cases "offset + 4 + sz > length buf")
      case True
      with \<open>offset + 4 < length buf\<close> g show ?thesis by (subst readChunks.simps) simp
    next
      case False
      from "1.IH"[OF True g False] True g False show ?thesis
        by (subst readChunks.simps) simp
    qed
  qed
qed

lemma length_prelude: "length FIG_KIWI_PRELUDE = 8"
  by (simp add: FIG_KIWI_PRELUDE_def)

lemma readFig_assemble:
  assumes v: "v < 4294967296"
  shows "readFig (assemble v cs @ rest) =
         (case readChunks ((FIG_KIWI_PRELUDE @ putUint32 v) @ concat (map frame cs) @ rest)
                 (length (FIG_KIWI_PRELUDE @ putUint32 v)) [] of
            Inl e \<Rightarrow> Inl e
          | Inr (cs', t) \<Rightarrow> Inr \<lparr>version = v, chunks = cs', truncated = t\<rparr>)"
proof -
  have s: "slice (assemble v cs @ rest) 0 (length FIG_KIWI_PRELUDE) = FIG_KIWI_PRELUDE"
    by (simp add: slice_def assemble_def)
  have g: "getUint32 (assemble v cs @ rest) (length FIG_KIWI_PRELUDE) = Some v"
    using getUint32_put[OF v, of FIG_KIWI_PRELUDE "concat (map frame cs) @ rest"]
    by (simp add: assemble_def)
  show ?thesis
    unfolding readFig_def
    by (simp only: s g option.case) (simp add: assemble_def length_putUint32)
qed


lemma framing_roundtrip:
  assumes v: "v < 4294967296" and sz: "\<forall>c\<in>set cs. length c < 4294967296"
    and lst: "cs \<noteq> [] \<longrightarrow> last cs \<noteq> []"
  shows "readFig (assemble v cs) = Inr \<lparr>version = v, chunks = cs, truncated = False\<rparr>"
proof -
  let ?pre = "FIG_KIWI_PRELUDE @ putUint32 v"
  have l: "cs \<noteq> [] \<longrightarrow> last cs \<noteq> [] \<or> ([]::byte list) \<noteq> []" using lst by simp
  have "readChunks (?pre @ concat (map frame cs) @ []) (length ?pre) []
        = readChunks ((?pre @ concat (map frame cs)) @ [])
            (length (?pre @ concat (map frame cs))) ([] @ cs)"
    by (rule readChunks_frames[OF sz l])
  also have "\<dots> = Inr ([] @ cs, False)"
    by (rule readChunks_stop) simp
  finally have "readChunks (?pre @ concat (map frame cs) @ []) (length ?pre) []
                = Inr ([] @ cs, False)" .
  then have r: "readChunks (?pre @ concat (map frame cs)) (length ?pre) [] = Inr (cs, False)"
    by (simp only: append_Nil2 append_Nil)
  show ?thesis
    using readFig_assemble[OF v, of cs "[]"] by (simp only: r append_Nil2 sum.case prod.case)
qed

lemma framing_trailing_empty:
  assumes v: "v < 4294967296" and sz: "\<forall>c\<in>set cs. length c < 4294967296"
  shows "readFig (assemble v (cs @ [[]])) = Inr \<lparr>version = v, chunks = cs, truncated = False\<rparr>"
proof -
  let ?pre = "FIG_KIWI_PRELUDE @ putUint32 v"
  have a: "assemble v (cs @ [[]]) = assemble v cs @ frame []"
    by (simp add: assemble_def)
  have l: "cs \<noteq> [] \<longrightarrow> last cs \<noteq> [] \<or> frame [] \<noteq> []" by (simp add: frame_def putUint32_def)
  have "readChunks (?pre @ concat (map frame cs) @ frame []) (length ?pre) []
        = readChunks ((?pre @ concat (map frame cs)) @ frame [])
            (length (?pre @ concat (map frame cs))) ([] @ cs)"
    by (rule readChunks_frames[OF sz l])
  also have "\<dots> = Inr ([] @ cs, False)"
    by (rule readChunks_stop) (simp add: length_frame)
  finally have r: "readChunks (?pre @ concat (map frame cs) @ frame []) (length ?pre) []
                   = Inr (cs, False)"
    by simp
  show ?thesis
    unfolding a using readFig_assemble[OF v, of cs "frame []"]
    by (simp only: r sum.case prod.case)
qed

text \<open>
  Claim C3. Reading the buffer assembled from a version and a sequence of chunks
  should give back that version and those chunks. \<open>framing_roundtrip\<close> proves it for
  every sequence whose last chunk is not empty (sizes and version below \<open>2 ^ 32\<close>).
  When the last chunk is empty its four length bytes are the last four bytes of the
  buffer, the loop condition \<^verbatim>\<open>offset + 4 < buf.length\<close> is false, and the chunk is
  lost (\<open>framing_trailing_empty\<close>); the input below is the smallest decodable case.
\<close>

theorem trailing_empty_chunk_dropped:
  "readFig (assemble 1 [[0x61], [0x62], []])
   = Inr \<lparr>version = 1, chunks = [[0x61], [0x62]], truncated = False\<rparr>"
  using framing_trailing_empty[of 1 "[[0x61], [0x62]]"] by simp

lemma readFig_truncated:
  assumes v: "v < 4294967296" and sz: "\<forall>c\<in>set cs. length c < 4294967296"
    and L: "L < 4294967296" and short: "length rest < L"
  shows "readFig (assemble v cs @ putUint32 L @ rest)
           = Inr \<lparr>version = v, chunks = cs, truncated = (rest \<noteq> [])\<rparr>
         \<and> (decodeFig fz (assemble v cs @ putUint32 L @ rest) = Inl InsufficientChunks
              \<longleftrightarrow> length cs < 2)
         \<and> (decodeFig fz buf = Inl InsufficientChunks
              \<longleftrightarrow> (\<exists>f. readFig buf = Inr f \<and> length (chunks f) < 2))"
proof -
  let ?pre = "FIG_KIWI_PRELUDE @ putUint32 v"
  let ?tl = "putUint32 L @ rest"
  have l: "cs \<noteq> [] \<longrightarrow> last cs \<noteq> [] \<or> ?tl \<noteq> []" by (simp add: putUint32_def)
  have "readChunks (?pre @ concat (map frame cs) @ ?tl) (length ?pre) []
        = readChunks ((?pre @ concat (map frame cs)) @ ?tl)
            (length (?pre @ concat (map frame cs))) ([] @ cs)"
    by (rule readChunks_frames[OF sz l])
  also have "\<dots> = Inr ([] @ cs, rest \<noteq> [])"
  proof (cases "rest = []")
    case True
    have "length ?tl \<le> 4" using True by (simp add: length_putUint32)
    from readChunks_stop[OF this] True show ?thesis by (simp only: simp_thms)
  next
    case False
    from readChunks_break[OF L short False] False show ?thesis by (simp only: simp_thms)
  qed
  finally have r: "readChunks (?pre @ concat (map frame cs) @ ?tl) (length ?pre) []
                   = Inr (cs, rest \<noteq> [])"
    by simp
  have rf: "readFig (assemble v cs @ putUint32 L @ rest)
            = Inr \<lparr>version = v, chunks = cs, truncated = (rest \<noteq> [])\<rparr>"
    using readFig_assemble[OF v, of cs ?tl] by (simp only: r sum.case prod.case)
  have d1: "decodeFig fz (assemble v cs @ putUint32 L @ rest) = Inl InsufficientChunks
            \<longleftrightarrow> length cs < 2"
    unfolding decodeFig_def rf
    by (auto simp: messageCodec_def split: sum.splits)
  have d2: "decodeFig fz buf = Inl InsufficientChunks
            \<longleftrightarrow> (\<exists>f. readFig buf = Inr f \<and> length (chunks f) < 2)"
    using readChunks_Inr[of buf "length FIG_KIWI_PRELUDE + 4" "[]" InsufficientChunks]
    unfolding decodeFig_def readFig_def
    by (auto simp: messageCodec_def split: sum.splits option.splits if_splits)
  show ?thesis using rf d1 d2 by blast
qed


text \<open>
  Claim C8. When a chunk's declared length exceeds the bytes that remain, the reader
  should stop there, report the chunks read before it and flag the truncation; the
  decode fails for lack of chunks exactly when fewer than two were read.
  \<open>readFig_truncated\<close> shows that the chunks and the two-chunk rule are as claimed on
  every such input, and that the truncation is flagged only when at least one byte
  follows the length field. At the input below, two whole chunks are followed by a
  length field that declares five bytes where none remain: the loop condition
  \<^verbatim>\<open>offset + 4 < buf.length\<close> is false, the length is never read, nothing is flagged,
  and the decode goes on as if the file were whole. With one payload byte more the
  same file is flagged.
\<close>

theorem truncated_length_field_unflagged:
  "readFig (assemble 1 [[0x61], [0x62]] @ putUint32 5)
     = Inr \<lparr>version = 1, chunks = [[0x61], [0x62]], truncated = False\<rparr>
   \<and> decodeFig fz (assemble 1 [[0x61], [0x62]] @ putUint32 5)
     = Inr \<lparr>planVersion = 1, schemaChunk = [0x61], schemaCodec = DeflateRaw,
            messageChunk = [0x62], messageCodec' = DeflateRaw\<rparr>
   \<and> readFig (assemble 1 [[0x61], [0x62]] @ putUint32 5 @ [0x63])
     = Inr \<lparr>version = 1, chunks = [[0x61], [0x62]], truncated = True\<rparr>"
proof -
  have a: "readFig (assemble 1 [[0x61], [0x62]] @ putUint32 5)
     = Inr \<lparr>version = 1, chunks = [[0x61], [0x62]], truncated = False\<rparr>"
    using readFig_truncated[of 1 "[[0x61], [0x62]]" 5 "[]" fz "[]"] by simp
  have b: "readFig (assemble 1 [[0x61], [0x62]] @ putUint32 5 @ [0x63])
     = Inr \<lparr>version = 1, chunks = [[0x61], [0x62]], truncated = True\<rparr>"
    using readFig_truncated[of 1 "[[0x61], [0x62]]" 5 "[0x63]" fz "[]"] by simp
  have c: "decodeFig fz (assemble 1 [[0x61], [0x62]] @ putUint32 5)
     = Inr \<lparr>planVersion = 1, schemaChunk = [0x61], schemaCodec = DeflateRaw,
            messageChunk = [0x62], messageCodec' = DeflateRaw\<rparr>"
    unfolding decodeFig_def a
    by (simp add: messageCodec_def isZstd_def isZstdTraced_def)
  show ?thesis using a b c by simp
qed

text \<open>
  Claim C7, as amended. The schema chunk always goes to raw deflate. The message chunk
  is sent to the frame codec exactly when its first four bytes, read as a little-endian
  unsigned 32-bit integer, equal \<open>ZSTD_MAGIC\<close>; when they do and the module \<^verbatim>\<open>fzstd\<close>
  is not installed, the decode stops with an error and does not fall back to raw
  deflate; every other message chunk goes to raw deflate.
\<close>

theorem codec_dispatch:
  "messageCodec fz c
     = (if getUint32 c 0 = Some ZSTD_MAGIC
        then (if fz then Inr Zstd else Inl MissingFzstd)
        else Inr DeflateRaw)
   \<and> (decodeFig fz buf = Inr p \<longrightarrow>
        schemaCodec p = DeflateRaw
        \<and> messageCodec fz (messageChunk p) = Inr (messageCodec' p)
        \<and> (\<exists>f. readFig buf = Inr f \<and> schemaChunk p = chunks f ! 0
                 \<and> messageChunk p = chunks f ! 1))"
proof -
  have a: "messageCodec fz c
     = (if getUint32 c 0 = Some ZSTD_MAGIC
        then (if fz then Inr Zstd else Inl MissingFzstd)
        else Inr DeflateRaw)"
    by (simp add: messageCodec_def isZstd_iff)
  have b: "decodeFig fz buf = Inr p \<longrightarrow>
        schemaCodec p = DeflateRaw
        \<and> messageCodec fz (messageChunk p) = Inr (messageCodec' p)
        \<and> (\<exists>f. readFig buf = Inr f \<and> schemaChunk p = chunks f ! 0
                 \<and> messageChunk p = chunks f ! 1)"
    unfolding decodeFig_def
    by (auto split: sum.splits if_splits)
  show ?thesis using a b by blast
qed

text \<open>
  The claim as stated fails where the module \<^verbatim>\<open>fzstd\<close> is missing: a message chunk
  that starts with the magic is then not decompressed with the frame codec.
\<close>

theorem codec_dispatch_counterexample:
  "getUint32 [0x28, 0xB5, 0x2F, 0xFD] 0 = Some ZSTD_MAGIC
   \<and> messageCodec False [0x28, 0xB5, 0x2F, 0xFD] \<noteq> Inr Zstd
   \<and> messageCodec False [0x28, 0xB5, 0x2F, 0xFD] = Inl MissingFzstd"
proof -
  have g: "getUint32 [0x28, 0xB5, 0x2F, 0xFD] 0 = Some ZSTD_MAGIC"
    by (simp add: getUint32_def ZSTD_MAGIC_def)
  then show ?thesis by (simp add: messageCodec_def isZstd_iff)
qed

theorem codec_dispatch_witness:
  "decodeFig True (assemble 1 [[0x61], [0x28, 0xB5, 0x2F, 0xFD]])
     = Inr \<lparr>planVersion = 1, schemaChunk = [0x61], schemaCodec = DeflateRaw,
            messageChunk = [0x28, 0xB5, 0x2F, 0xFD], messageCodec' = Zstd\<rparr>
   \<and> messageCodec True [0x28, 0xB5, 0x2F, 0xFD] = Inr Zstd"
proof -
  have g: "getUint32 [0x28, 0xB5, 0x2F, 0xFD] 0 = Some ZSTD_MAGIC"
    by (simp add: getUint32_def ZSTD_MAGIC_def)
  have r: "readFig (assemble 1 [[0x61], [0x28, 0xB5, 0x2F, 0xFD]])
           = Inr \<lparr>version = 1, chunks = [[0x61], [0x28, 0xB5, 0x2F, 0xFD]], truncated = False\<rparr>"
    by (rule framing_roundtrip) simp_all
  have d: "decodeFig True (assemble 1 [[0x61], [0x28, 0xB5, 0x2F, 0xFD]])
     = Inr \<lparr>planVersion = 1, schemaChunk = [0x61], schemaCodec = DeflateRaw,
            messageChunk = [0x28, 0xB5, 0x2F, 0xFD], messageCodec' = Zstd\<rparr>"
    unfolding decodeFig_def r by (simp add: messageCodec_def isZstd_iff g)
  show ?thesis
    using d codec_dispatch[of True "[0x28, 0xB5, 0x2F, 0xFD]"
        "assemble 1 [[0x61], [0x28, 0xB5, 0x2F, 0xFD]]"
        "\<lparr>planVersion = 1, schemaChunk = [0x61], schemaCodec = DeflateRaw,
            messageChunk = [0x28, 0xB5, 0x2F, 0xFD], messageCodec' = Zstd\<rparr>"]
    by (simp add: g)
qed

text \<open>
  Claim C10. For a message chunk shorter than four bytes the magic test is false
  and reads no byte, so the chunk goes to raw deflate whether or not \<^verbatim>\<open>fzstd\<close> is
  installed; and whatever the chunk, every index the test reads lies inside it.
\<close>

theorem short_chunk_not_zstd:
  assumes "length chunk < 4"
  shows "isZstd chunk = False \<and> isZstdReads chunk = []
         \<and> messageCodec fz chunk = Inr DeflateRaw
         \<and> list_all (\<lambda>i. i < length c) (isZstdReads c)"
  using assms
  by (auto simp: isZstd_def isZstdReads_def isZstdTraced_def messageCodec_def)

theorem short_chunk_not_zstd_witness:
  "length [0x28, 0xB5, 0x2F :: byte] < 4
   \<and> isZstd [0x28, 0xB5, 0x2F] = False \<and> isZstdReads [0x28, 0xB5, 0x2F] = []
   \<and> messageCodec False [0x28, 0xB5, 0x2F] = Inr DeflateRaw
   \<and> isZstdReads [0x28, 0xB5, 0x2F, 0xFD] = [0, 1, 2, 3]"
  using short_chunk_not_zstd[of "[0x28, 0xB5, 0x2F]" False "[0x28, 0xB5, 0x2F, 0xFD]"]
  by (simp add: isZstdReads_def isZstdTraced_def)

section \<open>Properties of the node graph\<close>


lemma childrenOf_addNode:
  "childrenOf (addNode gr n) p = childrenOf gr p @ (if parentKey n = Some p then [n] else [])"
  by (auto simp: addNode_def childrenOf_def Let_def split: option.splits)

lemma nodeMap_addNode:
  "nodeMap (addNode gr n) k = (if guidKey (guid n) = Some k then Some n else nodeMap gr k)"
  by (auto simp: addNode_def Let_def split: option.splits)

lemma childrenOf_foldl:
  "childrenOf (foldl addNode gr nodes) p
   = childrenOf gr p @ filter (\<lambda>n. parentKey n = Some p) nodes"
  by (induction nodes arbitrary: gr) (simp_all add: childrenOf_addNode)

lemma childrenOf_buildMaps:
  "childrenOf (buildMaps nodes) p = filter (\<lambda>n. parentKey n = Some p) nodes"
  by (simp add: buildMaps_def childrenOf_foldl) (simp add: childrenOf_def emptyGraph_def)

lemma nodeMap_buildMaps_snoc:
  "nodeMap (buildMaps (nodes @ [n])) k
   = (if guidKey (guid n) = Some k then Some n else nodeMap (buildMaps nodes) k)"
  by (simp add: buildMaps_def nodeMap_addNode)

lemma nodeMap_foldl_None:
  "\<forall>n\<in>set nodes. guidKey (guid n) \<noteq> Some k \<Longrightarrow> nodeMap (foldl addNode gr nodes) k = nodeMap gr k"
  by (induction nodes arbitrary: gr) (simp_all add: nodeMap_addNode)

lemma nodeMap_buildMaps_Some:
  "nodeMap (buildMaps nodes) k = Some n \<Longrightarrow> n \<in> set nodes \<and> guidKey (guid n) = Some k"
proof (induction nodes rule: rev_induct)
  case Nil
  then show ?case by (simp add: buildMaps_def emptyGraph_def)
next
  case (snoc x xs)
  then show ?case by (auto simp: nodeMap_buildMaps_snoc split: if_splits)
qed

lemma count_children:
  "length (filter (\<lambda>c. guidKey (guid c) = Some k) (childrenOf (buildMaps nodes) p))
   = length (filter (\<lambda>n. guidKey (guid n) = Some k \<and> parentKey n = Some p) nodes)"
  by (simp add: childrenOf_buildMaps conj_commute)


lemma mkNode_simps [simp]:
  "guidKey (guid (mkNode i p ty pos)) = Some (0, i)"
  "parentKey (mkNode i p ty pos) = map_option (\<lambda>j. (0, j)) p"
  "nodeType (mkNode i p ty pos) = Some ty"
  "posKey (mkNode i (Some j) ty pos) = pos"
  "opacity (mkNode i p ty pos) = None"
  "nodeSize (mkNode i p ty pos) = None"
  by (simp_all add: mkNode_def bareNode_def guidKey_def parentKey_def posKey_def split: option.splits)

lemma nodeMap_buildMaps_last:
  "nodeMap (buildMaps nodes) k
   = (case filter (\<lambda>m. guidKey (guid m) = Some k) nodes of [] \<Rightarrow> None | x # xs \<Rightarrow> Some (last (x # xs)))"
proof (induction nodes rule: rev_induct)
  case Nil
  then show ?case by (simp add: buildMaps_def emptyGraph_def)
next
  case (snoc x xs)
  then show ?case
    by (auto simp: nodeMap_buildMaps_snoc split: list.splits)
qed

lemma set_map_filter_iff: "k \<in> set (List.map_filter f xs) \<longleftrightarrow> (\<exists>m\<in>set xs. f m = Some k)"
  by (induction xs) (auto split: option.splits)

lemma filter_key_distinct:
  assumes "distinct (List.map_filter (\<lambda>n. guidKey (guid n)) nodes)"
    and "n \<in> set nodes" and "guidKey (guid n) = Some k"
  shows "filter (\<lambda>m. guidKey (guid m) = Some k) nodes = [n]"
  using assms
proof (induction nodes)
  case Nil
  then show ?case by simp
next
  case (Cons x xs)
  show ?case
  proof (cases "guidKey (guid x) = Some k")
    case True
    with Cons.prems(1) have "k \<notin> set (List.map_filter (\<lambda>n. guidKey (guid n)) xs)" by simp
    then have none: "\<forall>m\<in>set xs. guidKey (guid m) \<noteq> Some k" by (simp add: set_map_filter_iff)
    then have "filter (\<lambda>m. guidKey (guid m) = Some k) xs = []" by (simp add: filter_empty_conv)
    moreover have "n = x" using none Cons.prems(2,3) by auto
    ultimately show ?thesis using True by simp
  next
    case False
    then have "n \<in> set xs" using Cons.prems(2,3) by auto
    moreover have "distinct (List.map_filter (\<lambda>n. guidKey (guid n)) xs)"
      using Cons.prems(1) by (simp split: option.splits)
    ultimately show ?thesis using Cons.IH Cons.prems(3) False by simp
  qed
qed

text \<open>
  Claim C4, as amended. The child list of a parent holds one entry for every input
  record that names that parent: an identifier occurs in it as many times as the input
  has records with that identifier and that parent, hence at least once for a record
  of the input, and exactly once (as that record, which is also the one the node map
  keeps) when no identifier is repeated in the input.
\<close>

theorem children_count:
  "length (filter (\<lambda>c. guidKey (guid c) = Some k) (childrenOf (buildMaps nodes) p))
     = length (filter (\<lambda>m. guidKey (guid m) = Some k \<and> parentKey m = Some p) nodes)
   \<and> (n \<in> set nodes \<and> guidKey (guid n) = Some k \<and> parentKey n = Some p \<longrightarrow>
        1 \<le> length (filter (\<lambda>c. guidKey (guid c) = Some k) (childrenOf (buildMaps nodes) p)))
   \<and> (n \<in> set nodes \<and> guidKey (guid n) = Some k \<and> parentKey n = Some p
        \<and> distinct (List.map_filter (\<lambda>m. guidKey (guid m)) nodes) \<longrightarrow>
        filter (\<lambda>c. guidKey (guid c) = Some k) (childrenOf (buildMaps nodes) p) = [n]
        \<and> nodeMap (buildMaps nodes) k = Some n)"
proof -
  have a: "length (filter (\<lambda>c. guidKey (guid c) = Some k) (childrenOf (buildMaps nodes) p))
     = length (filter (\<lambda>m. guidKey (guid m) = Some k \<and> parentKey m = Some p) nodes)"
    by (rule count_children)
  have b: "1 \<le> length (filter (\<lambda>c. guidKey (guid c) = Some k) (childrenOf (buildMaps nodes) p))"
    if "n \<in> set nodes" "guidKey (guid n) = Some k" "parentKey n = Some p"
  proof -
    have "n \<in> set (filter (\<lambda>m. guidKey (guid m) = Some k \<and> parentKey m = Some p) nodes)"
      using that by simp
    then have "filter (\<lambda>m. guidKey (guid m) = Some k \<and> parentKey m = Some p) nodes \<noteq> []"
      by (metis empty_iff list.set(1))
    then have "1 \<le> length (filter (\<lambda>m. guidKey (guid m) = Some k \<and> parentKey m = Some p) nodes)"
      by (cases "filter (\<lambda>m. guidKey (guid m) = Some k \<and> parentKey m = Some p) nodes") simp_all
    then show ?thesis unfolding a .
  qed
  have c: "filter (\<lambda>c. guidKey (guid c) = Some k) (childrenOf (buildMaps nodes) p) = [n]
           \<and> nodeMap (buildMaps nodes) k = Some n"
    if "n \<in> set nodes" "guidKey (guid n) = Some k" "parentKey n = Some p"
      "distinct (List.map_filter (\<lambda>m. guidKey (guid m)) nodes)"
  proof -
    have f: "filter (\<lambda>m. guidKey (guid m) = Some k) nodes = [n]"
      by (rule filter_key_distinct[OF that(4) that(1) that(2)])
    have "filter (\<lambda>c. guidKey (guid c) = Some k) (childrenOf (buildMaps nodes) p)
          = filter (\<lambda>m. parentKey m = Some p) (filter (\<lambda>m. guidKey (guid m) = Some k) nodes)"
      by (simp add: childrenOf_buildMaps conj_commute)
    also have "\<dots> = [n]" unfolding f using that(3) by simp
    finally have x: "filter (\<lambda>c. guidKey (guid c) = Some k) (childrenOf (buildMaps nodes) p) = [n]" .
    have "nodeMap (buildMaps nodes) k = Some n"
      unfolding nodeMap_buildMaps_last f by simp
    with x show ?thesis by simp
  qed
  show ?thesis using a b c by blast
qed

text \<open>
  The claim as stated fails when an identifier is repeated under one parent: the node
  map keeps the last record, the child list keeps both.
\<close>

theorem children_count_counterexample:
  "nodeMap (buildMaps [mkNode 1 None ''FRAME'' [], mkNode 2 (Some 1) ''VECTOR'' ''a'',
                       mkNode 2 (Some 1) ''VECTOR'' ''b'']) (0, 1)
     = Some (mkNode 1 None ''FRAME'' [])
   \<and> map (\<lambda>c. guidKey (guid c))
         (childrenOf (buildMaps [mkNode 1 None ''FRAME'' [], mkNode 2 (Some 1) ''VECTOR'' ''a'',
                                 mkNode 2 (Some 1) ''VECTOR'' ''b'']) (0, 1))
     = [Some (0, 2), Some (0, 2)]"
  by (simp add: nodeMap_buildMaps_last childrenOf_buildMaps)

theorem children_count_witness:
  "mkNode 2 (Some 1) ''VECTOR'' ''a'' \<in> set [mkNode 1 None ''FRAME'' [], mkNode 2 (Some 1) ''VECTOR'' ''a'']
   \<and> distinct (List.map_filter (\<lambda>m. guidKey (guid m))
                 [mkNode 1 None ''FRAME'' [], mkNode 2 (Some 1) ''VECTOR'' ''a''])
   \<and> filter (\<lambda>c. guidKey (guid c) = Some (0, 2))
        (childrenOf (buildMaps [mkNode 1 None ''FRAME'' [], mkNode 2 (Some 1) ''VECTOR'' ''a'']) (0, 1))
      = [mkNode 2 (Some 1) ''VECTOR'' ''a'']
   \<and> nodeMap (buildMaps [mkNode 1 None ''FRAME'' [], mkNode 2 (Some 1) ''VECTOR'' ''a'']) (0, 2)
      = Some (mkNode 2 (Some 1) ''VECTOR'' ''a'')"
  using children_count[of "(0, 2)" "[mkNode 1 None ''FRAME'' [], mkNode 2 (Some 1) ''VECTOR'' ''a'']"
      "(0, 1)" "mkNode 2 (Some 1) ''VECTOR'' ''a''"]
  by simp

section \<open>Properties of the icon classifier\<close>



lemma mapOption_Some_iff: "mapOption f xs = Some ys \<longleftrightarrow> map f xs = map Some ys"
proof (induction xs arbitrary: ys)
  case Nil
  then show ?case by auto
next
  case (Cons x xs)
  show ?case
  proof (cases "f x")
    case None
    then show ?thesis by auto
  next
    case (Some y)
    show ?thesis
    proof (cases "mapOption f xs")
      case None
      with Some Cons.IH show ?thesis by (cases ys) auto
    next
      case (Some zs)
      with \<open>f x = Some y\<close> Cons.IH[of zs] Cons.IH show ?thesis by (cases ys) auto
    qed
  qed
qed

lemma iconLoop_total:
  "(\<And>n. n \<in> set ns \<Longrightarrow> \<exists>r. iconOf gr n = Some r) \<Longrightarrow> \<exists>r. iconLoop gr ns acc = Some r"
proof (induction ns arbitrary: acc)
  case Nil
  then show ?case by simp
next
  case (Cons n ns)
  from Cons.prems[of n] obtain r where r: "iconOf gr n = Some r" by auto
  from Cons.IH Cons.prems show ?case by (simp add: r)
qed

lemma sized_simps [simp]:
  "guid (sized n w h) = guid n"
  "parentKey (sized n w h) = parentKey n"
  "nodeType (sized n w h) = nodeType n"
  "opacity (sized n w h) = opacity n"
  "nodeSize (sized n w h) = Some \<lparr>vecX = w, vecY = h\<rparr>"
  "posKey (sized n w h) = posKey n"
  by (simp_all add: sized_def parentKey_def posKey_def)

lemma selfParented_graph:
  "nodeMap (buildMaps selfParented) (0, 7) = Some (sized (mkNode 7 (Some 7) ''FRAME'' []) 24 24)"
  "childrenOf (buildMaps selfParented) (0, 7)
   = [sized (mkNode 7 (Some 7) ''FRAME'' []) 24 24, mkNode 8 (Some 7) ''VECTOR'' []]"
  by (simp_all add: selfParented_def nodeMap_buildMaps_last childrenOf_buildMaps)

lemma hasVectorDescendant_child:
  "c \<in> set (childrenOf gr k) \<Longrightarrow> nodeType c = Some ''VECTOR'' \<or> nodeType c = Some ''BOOLEAN_OPERATION''
   \<Longrightarrow> hasVectorDescendant gr k (Suc d)"
  by (auto simp: list_ex_iff)

lemma selfParented_diverges: "buildShapeTree (buildMaps selfParented) (0, 7) d = None"
proof -
  have nt: "gr = buildMaps selfParented \<longrightarrow> k = (0, 7) \<longrightarrow> False"
    if a: "buildShapeTree gr k d = Some y" for gr k d y
  proof (rule buildShapeTree.raw_induct[where P = "\<lambda>gr k d y. gr = buildMaps selfParented \<longrightarrow> k = (0, 7) \<longrightarrow> False", OF _ a], goal_cases)
    case (1 f gr k d y)
    show ?case
    proof (intro impI)
      assume g: "gr = buildMaps selfParented" and k: "k = (0, 7)"
      from 1(2) obtain r where "f (buildMaps selfParented) (0, 7) (d + 1) = Some r"
        unfolding g k
        by (auto simp: selfParented_graph isTransparentBg_def bind_eq_Some_conv
            split: option.splits if_splits)
      from 1(1)[OF this] show False by simp
    qed
  qed
  show ?thesis
  proof (cases "buildShapeTree (buildMaps selfParented) (0, 7) d")
    case None
    then show ?thesis .
  next
    case (Some y)
    from nt[OF Some] show ?thesis by simp
  qed
qed

text \<open>
  Claim C2. With a finite depth bound the pipeline should end on every node list, a
  self-parented node included. On \<open>selfParented\<close> it does not: the frame passes the
  descendant search, which tests its depth, and \<^verbatim>\<open>buildShapeTree\<close>, which receives
  \<^verbatim>\<open>depth\<close> and never reads it, then follows the frame's own child entry without end,
  so no icon list is produced.
\<close>

theorem self_parent_counterexample: "findIcons selfParented = None"
proof -
  have "hasVectorDescendant (buildMaps selfParented) (0, 7) (Suc 4)"
    by (rule hasVectorDescendant_child[where c = "mkNode 8 (Some 7) ''VECTOR'' []"])
       (simp_all add: selfParented_graph)
  then have hv: "hasVectorDescendant (buildMaps selfParented) (0, 7) 5" by simp
  have "iconOf (buildMaps selfParented) (sized (mkNode 7 (Some 7) ''FRAME'' []) 24 24) = None"
    unfolding iconOf_def by (simp add: mathRound_def hv selfParented_diverges)
  then show ?thesis
    unfolding findIcons_def by (simp add: selfParented_def)
qed

lemma painted_simps [simp]:
  "guid (painted n opa fs ss) = guid n"
  "parentKey (painted n opa fs ss) = parentKey n"
  "nodeType (painted n opa fs ss) = nodeType n"
  "opacity (painted n opa fs ss) = opa"
  "nodeSize (painted n opa fs ss) = nodeSize n"
  "posKey (painted n opa fs ss) = posKey n"
  by (simp_all add: painted_def parentKey_def posKey_def)

lemma set_pushColor: "set (pushColor acc c) \<subseteq> insert c (set acc)"
  by (auto simp: pushColor_def)

lemma set_pushColors: "set (foldl pushColor acc cs) \<subseteq> set acc \<union> set cs"
proof (induction cs arbitrary: acc)
  case Nil
  then show ?case by simp
next
  case (Cons c cs)
  have "set (foldl pushColor (pushColor acc c) cs) \<subseteq> set (pushColor acc c) \<union> set cs"
    by (rule Cons.IH)
  with set_pushColor[of acc c] show ?case by auto
qed

lemma collectColors_subset: "set (collectColors t acc) \<subseteq> set acc \<union> treeColors t"
proof (induction t arbitrary: acc)
  case (Shape ty nm g sz pos fs ss opa hb cs)
  have loop: "set (foldl (\<lambda>a c. collectColors c a) a0 xs) \<subseteq> set a0 \<union> (\<Union>c\<in>set xs. treeColors c)"
    if "set xs \<subseteq> set cs" for xs a0
    using that
  proof (induction xs arbitrary: a0)
    case Nil
    then show ?case by simp
  next
    case (Cons x xs)
    have x: "set (collectColors x a0) \<subseteq> set a0 \<union> treeColors x"
      using Shape.IH[of x a0] Cons.prems by simp
    have "set (foldl (\<lambda>a c. collectColors c a) (collectColors x a0) xs)
          \<subseteq> set (collectColors x a0) \<union> (\<Union>c\<in>set xs. treeColors c)"
      using Cons.IH[of "collectColors x a0"] Cons.prems by simp
    with x show ?case by auto
  qed
  have "set (foldl pushColor (foldl pushColor acc (map fillColor fs)) (map strokeColor ss))
        \<subseteq> set acc \<union> set (map fillColor fs) \<union> set (map strokeColor ss)"
    using set_pushColors[of "foldl pushColor acc (map fillColor fs)" "map strokeColor ss"]
      set_pushColors[of acc "map fillColor fs"] by blast
  with loop[of cs "foldl pushColor (foldl pushColor acc (map fillColor fs)) (map strokeColor ss)"]
  show ?case by auto
qed

lemma built_shape:
  assumes "buildShapeTree gr k d = Some (Some t)"
  shows "shapeGuid t = k \<and> builtFrom gr t"
proof -
  have "\<forall>t. y = Some t \<longrightarrow> shapeGuid t = k \<and> builtFrom gr t"
    if a: "buildShapeTree gr k d = Some y" for gr k d y
  proof (rule buildShapeTree.raw_induct[where P = "\<lambda>gr k d y. \<forall>t. y = Some t \<longrightarrow> shapeGuid t = k \<and> builtFrom gr t", OF _ a], goal_cases)
    case (1 f gr k d y)
    show ?case
    proof (intro allI impI)
      fix t assume y: "y = Some t"
      let ?F = "\<lambda>c. case guidKey (guid c) of None \<Rightarrow> Some None | Some ck \<Rightarrow> f gr ck (d + 1)"
      from 1(2) y obtain n rs where n: "nodeMap gr k = Some n" "\<not> isTransparentBg n"
        and rs: "mapOption ?F (childrenOf gr k) = Some rs"
        and t: "t = shapeOf n k (List.map_filter id rs)"
        by (auto simp: bind_eq_Some_conv split: option.splits if_splits)
      from rs have m: "map ?F (childrenOf gr k) = map Some rs" by (simp add: mapOption_Some_iff)
      have ch: "list_ex (\<lambda>m. guidKey (guid m) = Some (shapeGuid c)) (childrenOf gr k) \<and> builtFrom gr c"
        if "c \<in> set (List.map_filter id rs)" for c
      proof -
        from that have "Some c \<in> set rs" by (auto simp: set_map_filter_iff)
        then have "Some (Some c) \<in> set (map Some rs)" by simp
        with m have "Some (Some c) \<in> set (map ?F (childrenOf gr k))" by simp
        then obtain x where x: "x \<in> set (childrenOf gr k)" "?F x = Some (Some c)" by auto
        then obtain ck where ck: "guidKey (guid x) = Some ck" "f gr ck (d + 1) = Some (Some c)"
          by (auto split: option.splits)
        from 1(1)[OF ck(2)] have "shapeGuid c = ck \<and> builtFrom gr c" by simp
        with x(1) ck(1) show ?thesis by (auto simp: list_ex_iff)
      qed
      show "shapeGuid t = k \<and> builtFrom gr t"
        unfolding t shapeOf_def using n ch by (simp add: list_all_iff)
    qed
  qed
  from this[OF assms] show ?thesis by simp
qed

lemma transparent_null:
  "nodeMap gr k = Some n \<Longrightarrow> isTransparentBg n \<Longrightarrow> buildShapeTree gr k d = Some None"
  by (subst buildShapeTree.simps) simp

text \<open>
  Claim C1, as amended. A node classified as a transparent background rectangle is
  left out of the shape tree together with everything below it: the construction
  returns \<^verbatim>\<open>null\<close> for it and does not visit its children. Every node of a shape tree
  is a stored record that is not a transparent background, reached through the child
  list of its parent in the tree, and the palette holds only colours of fills and
  strokes of the tree.
\<close>

theorem transparent_subtree_omitted:
  "(nodeMap gr k = Some n \<and> isTransparentBg n \<longrightarrow> buildShapeTree gr k d = Some None)
   \<and> (buildShapeTree gr k d = Some (Some t) \<longrightarrow>
        shapeGuid t = k \<and> builtFrom gr t \<and> set (collectColors t []) \<subseteq> treeColors t)"
  using transparent_null[of gr k n d] built_shape[of gr k d t] collectColors_subset[of t "[]"]
  by auto


lemma mathRound_eq: "of_int i \<le> x + 1 / 2 \<Longrightarrow> x + 1 / 2 < of_int i + 1 \<Longrightarrow> mathRound x = i"
  unfolding mathRound_def by (rule floor_unique)

lemma mathRound_of_int: "mathRound (of_int i) = i"
  by (rule mathRound_eq) simp_all

lemma mathRound_int [simp]:
  "mathRound 0 = 0" "mathRound 1 = 1" "mathRound (numeral w) = numeral w"
  using mathRound_of_int[of 0] mathRound_of_int[of 1] mathRound_of_int[of "numeral w"]
  by simp_all

lemma hex_examples:
  "colorToHex (rgb 0 0 1) = ''#0000ff''"
  "colorToHex (rgb 1 0 0) = ''#ff0000''"
  "colorToHex (rgb 1 1 1) = ''#ffffff''"
  by (simp_all add: colorToHex_def rgb_def toString16_def padStart2_def
      hexDigits.simps hexChar_def)

lemma painted_fields [simp]:
  "fillPaints (painted n opa fs ss) = Some (map (\<lambda>c. \<lparr>paintColor = Some c, paintOpacity = None\<rparr>) fs)"
  "strokePaints (painted n opa fs ss) = Some (map (\<lambda>c. \<lparr>paintColor = Some c, paintOpacity = None\<rparr>) ss)"
  "nodeName (painted n opa fs ss) = nodeName n"
  "transform (painted n opa fs ss) = transform n"
  "strokeWeight (painted n opa fs ss) = strokeWeight n"
  "vectorNetworkBlob (painted n opa fs ss) = vectorNetworkBlob n"
  by (simp_all add: painted_def)

lemma mkNode_fields [simp]:
  "nodeName (mkNode i p ty pos) = None"
  "transform (mkNode i p ty pos) = None"
  "fillPaints (mkNode i p ty pos) = None"
  "strokePaints (mkNode i p ty pos) = None"
  "strokeWeight (mkNode i p ty pos) = None"
  "vectorNetworkBlob (mkNode i p ty pos) = None"
  by (simp_all add: mkNode_def bareNode_def)

lemma sized_fields [simp]:
  "nodeName (sized n w h) = nodeName n"
  "transform (sized n w h) = transform n"
  "fillPaints (sized n w h) = fillPaints n"
  "strokePaints (sized n w h) = strokePaints n"
  "strokeWeight (sized n w h) = strokeWeight n"
  "vectorNetworkBlob (sized n w h) = vectorNetworkBlob n"
  by (simp_all add: sized_def)

lemma hiddenVector_graph:
  "nodeMap (buildMaps hiddenVector) (0, 7) = Some (sized (mkNode 7 None ''FRAME'' []) 24 24)"
  "nodeMap (buildMaps hiddenVector) (0, 8)
     = Some (painted (mkNode 8 (Some 7) ''ROUNDED_RECTANGLE'' ''a'') (Some (1 / 10000)) [rgb 1 1 1] [])"
  "nodeMap (buildMaps hiddenVector) (0, 10)
     = Some (painted (mkNode 10 (Some 7) ''VECTOR'' ''b'') None [rgb 0 0 1] [])"
  "childrenOf (buildMaps hiddenVector) (0, 7)
     = [painted (mkNode 8 (Some 7) ''ROUNDED_RECTANGLE'' ''a'') (Some (1 / 10000)) [rgb 1 1 1] [],
        painted (mkNode 10 (Some 7) ''VECTOR'' ''b'') None [rgb 0 0 1] []]"
  "childrenOf (buildMaps hiddenVector) (0, 8)
     = [painted (mkNode 9 (Some 8) ''VECTOR'' ''a'') (Some 1) [rgb 1 0 0] []]"
  "childrenOf (buildMaps hiddenVector) (0, 10) = []"
  by (simp_all add: hiddenVector_def nodeMap_buildMaps_last childrenOf_buildMaps)

lemma hiddenVector_rect: "buildShapeTree (buildMaps hiddenVector) (0, 8) d = Some None"
  by (rule transparent_null[OF hiddenVector_graph(2)]) (simp add: isTransparentBg_def)

lemma hiddenVector_leaf:
  "buildShapeTree (buildMaps hiddenVector) (0, 10) d
   = Some (Some (Shape (Some ''VECTOR'') [] (0, 10) None None
          [\<lparr>fillColor = ''#0000ff'', fillOpacity = 1\<rparr>] [] 1 False []))"
  by (subst buildShapeTree.simps)
     (simp add: hiddenVector_graph isTransparentBg_def shapeOf_def shapeFills_def
        shapeStrokes_def hex_examples)

lemma hiddenVector_tree:
  "buildShapeTree (buildMaps hiddenVector) (0, 7) 0 = Some (Some hiddenVectorTree)"
  by (subst buildShapeTree.simps)
     (simp add: hiddenVector_graph isTransparentBg_def shapeOf_def shapeFills_def
        shapeStrokes_def hiddenVector_rect hiddenVector_leaf hiddenVectorTree_def)

text \<open>
  The claim as stated fails on \<open>hiddenVector\<close>: the vector \<open>0:9\<close> is a child of the
  transparent rectangle and is not transparent, and it is in no shape tree.
\<close>

theorem transparent_children_counterexample:
  "isTransparentBg (painted (mkNode 8 (Some 7) ''ROUNDED_RECTANGLE'' ''a'') (Some (1 / 10000)) [rgb 1 1 1] [])
   \<and> \<not> isTransparentBg (painted (mkNode 9 (Some 8) ''VECTOR'' ''a'') (Some 1) [rgb 1 0 0] [])
   \<and> parentKey (painted (mkNode 9 (Some 8) ''VECTOR'' ''a'') (Some 1) [rgb 1 0 0] []) = Some (0, 8)
   \<and> findIcons hiddenVector
     = Some [\<lparr>iconName = None, iconGuid = (0, 7), iconSize = (24, 24), parentName = None,
              primaryColor = Some ''#0000ff'', allColors = [''#0000ff''], vectorCount = 1,
              shapeTree = hiddenVectorTree\<rparr>]"
proof -
  have "hasVectorDescendant (buildMaps hiddenVector) (0, 7) (Suc 4)"
    by (rule hasVectorDescendant_child[where c = "painted (mkNode 10 (Some 7) ''VECTOR'' ''b'') None [rgb 0 0 1] []"])
       (simp_all add: hiddenVector_graph)
  then have hv: "hasVectorDescendant (buildMaps hiddenVector) (0, 7) 5" by simp
  have ic: "iconOf (buildMaps hiddenVector) (sized (mkNode 7 None ''FRAME'' []) 24 24)
     = Some (Some \<lparr>iconName = None, iconGuid = (0, 7), iconSize = (24, 24), parentName = None,
              primaryColor = Some ''#0000ff'', allColors = [''#0000ff''], vectorCount = 1,
              shapeTree = hiddenVectorTree\<rparr>)"
    unfolding iconOf_def
    by (simp add: hv hiddenVector_tree)
       (simp add: hiddenVectorTree_def pushColor_def)
  show ?thesis
    unfolding findIcons_def
    by (simp add: hiddenVector_def ic[unfolded hiddenVector_def] isTransparentBg_def)
qed

theorem transparent_subtree_omitted_witness:
  "buildShapeTree (buildMaps hiddenVector) (0, 8) 0 = Some None
   \<and> shapeGuid hiddenVectorTree = (0, 7) \<and> builtFrom (buildMaps hiddenVector) hiddenVectorTree
   \<and> set (collectColors hiddenVectorTree []) \<subseteq> treeColors hiddenVectorTree"
  using transparent_subtree_omitted[of "buildMaps hiddenVector" "(0, 8)"
      "painted (mkNode 8 (Some 7) ''ROUNDED_RECTANGLE'' ''a'') (Some (1 / 10000)) [rgb 1 1 1] []" 0 undefined]
    transparent_subtree_omitted[of "buildMaps hiddenVector" "(0, 7)" undefined 0 hiddenVectorTree]
    hiddenVector_tree hiddenVector_graph(2)
  by (simp add: isTransparentBg_def)










lemma hasVectorDescendant_iff:
  "hasVectorDescendant gr k d \<longleftrightarrow> (\<exists>m c. 1 \<le> m \<and> m \<le> d \<and> descendantAt gr k m c \<and> isVectorKind c)"
proof (induction d arbitrary: k)
  case 0
  then show ?case by simp
next
  case (Suc d)
  show ?case
  proof
    assume "hasVectorDescendant gr k (Suc d)"
    then obtain c where c: "c \<in> set (childrenOf gr k)"
      and alt: "isVectorKind c \<or> (\<exists>ck. guidKey (guid c) = Some ck \<and> hasVectorDescendant gr ck d)"
      by (auto simp: list_ex_iff isVectorKind_def split: option.splits)
    from alt show "\<exists>m c. 1 \<le> m \<and> m \<le> Suc d \<and> descendantAt gr k m c \<and> isVectorKind c"
    proof
      assume "isVectorKind c"
      with descendantAt.child[OF c] show ?thesis by (intro exI[of _ "Suc 0"] exI[of _ c]) simp
    next
      assume "\<exists>ck. guidKey (guid c) = Some ck \<and> hasVectorDescendant gr ck d"
      then obtain ck where ck: "guidKey (guid c) = Some ck" "hasVectorDescendant gr ck d" by blast
      from ck(2) Suc.IH[of ck] obtain m c' where
        m: "1 \<le> m" "m \<le> d" "descendantAt gr ck m c'" "isVectorKind c'" by blast
      from descendantAt.step[OF c ck(1) m(3)] m show ?thesis
        by (intro exI[of _ "Suc m"] exI[of _ c']) simp
    qed
  next
    assume "\<exists>m c. 1 \<le> m \<and> m \<le> Suc d \<and> descendantAt gr k m c \<and> isVectorKind c"
    then obtain m c where m: "1 \<le> m" "m \<le> Suc d" "descendantAt gr k m c" "isVectorKind c"
      by blast
    from m(3) show "hasVectorDescendant gr k (Suc d)"
    proof (cases rule: descendantAt.cases)
      case child
      with m(4) show ?thesis by (auto simp: list_ex_iff isVectorKind_def)
    next
      case (step c0 ck m')
      have "hasVectorDescendant gr ck d"
      proof (cases m')
        case 0
        with step(4) show ?thesis by (auto elim: descendantAt.cases)
      next
        case (Suc j)
        with step m have "1 \<le> m' \<and> m' \<le> d \<and> descendantAt gr ck m' c \<and> isVectorKind c" by simp
        then show ?thesis using Suc.IH[of ck] by blast
      qed
      with step(3) have "case guidKey (guid c0) of None \<Rightarrow> False
                         | Some ck \<Rightarrow> hasVectorDescendant gr ck d" by simp
      with step(2) show ?thesis
        unfolding hasVectorDescendant.simps list_ex_iff by blast
    qed
  qed
qed

lemma buildShapeTree_null_iff:
  assumes "buildShapeTree gr k d = Some st"
  shows "st \<noteq> None \<longleftrightarrow> (case nodeMap gr k of None \<Rightarrow> False | Some s \<Rightarrow> \<not> isTransparentBg s)"
  using assms
  by (subst (asm) buildShapeTree.simps)
     (auto simp: bind_eq_Some_conv split: option.splits if_splits)

lemma iconOf_Some:
  assumes "iconOf gr n = Some x"
  shows "case x of None \<Rightarrow> \<not> passes gr n
         | Some ic \<Rightarrow> passes gr n \<and> guidKey (guid n) = Some (iconGuid ic)"
proof (cases "nodeSize n")
  case None
  with assms show ?thesis by (simp add: iconOf_def passes_def)
next
  case (Some s)
  show ?thesis
  proof (cases "mathRound (vecX s) > 32 \<or> mathRound (vecY s) > 32")
    case True
    with assms Some show ?thesis by (auto simp: iconOf_def passes_def Let_def)
  next
    case small: False
    show ?thesis
    proof (cases "guidKey (guid n)")
      case None
      with assms Some small show ?thesis by (simp add: iconOf_def passes_def Let_def)
    next
      case k: (Some k)
      show ?thesis
      proof (cases "hasVectorDescendant gr k 5")
        case False
        with assms Some small k show ?thesis by (simp add: iconOf_def passes_def Let_def)
      next
        case True
        from assms Some small k True obtain st where st: "buildShapeTree gr k 0 = Some st"
          by (auto simp: iconOf_def Let_def bind_eq_Some_conv)
        note nz = buildShapeTree_null_iff[OF st]
        show ?thesis
        proof (cases st)
          case None
          with assms Some small k True st nz show ?thesis
            by (auto simp: iconOf_def passes_def Let_def)
        next
          case t: (Some t)
          with assms Some small k True st nz show ?thesis
            by (auto simp: iconOf_def passes_def Let_def)
        qed
      qed
    qed
  qed
qed

lemma iconLoop_guids:
  "iconLoop gr ns acc = Some r \<Longrightarrow>
   map iconGuid r = map iconGuid acc @ List.map_filter (\<lambda>n. guidKey (guid n)) (filter (passes gr) ns)"
proof (induction ns arbitrary: acc)
  case Nil
  then show ?case by simp
next
  case (Cons n ns)
  from Cons.prems obtain x where x: "iconOf gr n = Some x"
    and rest: "iconLoop gr ns (case x of None \<Rightarrow> acc | Some ic \<Rightarrow> acc @ [ic]) = Some r"
    by (auto simp: bind_eq_Some_conv)
  from Cons.IH[OF rest] iconOf_Some[OF x] show ?case
    by (cases x) auto
qed

lemma wideFrame_graph:
  "nodeMap (buildMaps wideFrame) (0, 7) = Some (sized (mkNode 7 None ''FRAME'' []) (129 / 4) 10)"
  "nodeMap (buildMaps wideFrame) (0, 8) = Some (mkNode 8 (Some 7) ''VECTOR'' [])"
  "childrenOf (buildMaps wideFrame) (0, 7) = [mkNode 8 (Some 7) ''VECTOR'' []]"
  "childrenOf (buildMaps wideFrame) (0, 8) = []"
  by (simp_all add: wideFrame_def nodeMap_buildMaps_last childrenOf_buildMaps)

lemma mathRound_wide: "mathRound (129 / 4) = 32"
  by (rule mathRound_eq) simp_all

lemma wideFrame_icons:
  "findIcons wideFrame
   = Some [\<lparr>iconName = None, iconGuid = (0, 7), iconSize = (32, 10), parentName = None,
            primaryColor = None, allColors = [], vectorCount = 1,
            shapeTree = wideFrameTree\<rparr>]"
proof -
  have leaf: "buildShapeTree (buildMaps wideFrame) (0, 8) d
              = Some (Some (Shape (Some ''VECTOR'') [] (0, 8) None None [] [] 1 False []))" for d
    by (subst buildShapeTree.simps)
       (simp add: wideFrame_graph isTransparentBg_def shapeOf_def shapeFills_def shapeStrokes_def)
  have t: "buildShapeTree (buildMaps wideFrame) (0, 7) 0 = Some (Some wideFrameTree)"
    by (subst buildShapeTree.simps)
       (simp add: wideFrame_graph isTransparentBg_def shapeOf_def shapeFills_def
          shapeStrokes_def leaf wideFrameTree_def mathRound_wide)
  have "hasVectorDescendant (buildMaps wideFrame) (0, 7) (Suc 4)"
    by (rule hasVectorDescendant_child[where c = "mkNode 8 (Some 7) ''VECTOR'' []"])
       (simp_all add: wideFrame_graph)
  then have hv: "hasVectorDescendant (buildMaps wideFrame) (0, 7) 5" by simp
  have ic: "iconOf (buildMaps wideFrame) (sized (mkNode 7 None ''FRAME'' []) (129 / 4) 10)
     = Some (Some \<lparr>iconName = None, iconGuid = (0, 7), iconSize = (32, 10), parentName = None,
            primaryColor = None, allColors = [], vectorCount = 1,
            shapeTree = wideFrameTree\<rparr>)"
    unfolding iconOf_def
    by (simp add: hv t mathRound_wide)
       (simp add: wideFrameTree_def)
  show ?thesis
    unfolding findIcons_def
    by (simp add: wideFrame_def ic[unfolded wideFrame_def])
qed

text \<open>
  The claim as stated fails on \<open>wideFrame\<close>: the frame is 32.25 wide, which is more
  than 32, and it is selected, since the test is on the rounded width.
\<close>

theorem icon_candidates_counterexample:
  "map_option (map (\<lambda>ic. (iconGuid ic, iconSize ic))) (findIcons wideFrame)
     = Some [((0, 7), (32, 10))]
   \<and> nodeSize (hd wideFrame) = Some \<lparr>vecX = 129 / 4, vecY = 10\<rparr>
   \<and> \<not> (129 / 4 :: rat) \<le> 32"
  by (simp add: wideFrame_icons) (simp add: wideFrame_def)

lemma candidateKey_iff:
  "candidateKey gr n = Some k \<longleftrightarrow>
     (case nodeSize n of
        None \<Rightarrow> False
      | Some s \<Rightarrow> mathRound (vecX s) \<le> 32 \<and> mathRound (vecY s) \<le> 32)
     \<and> guidKey (guid n) = Some k \<and> hasVectorDescendant gr k 5"
  by (auto simp: candidateKey_def Let_def split: option.splits)

lemma candidateKey_root:
  "(nodeType n = Some ''FRAME'' \<and> candidateKey gr n \<noteq> None) = candidateRoot gr n"
  by (cases "guidKey (guid n)")
     (auto simp: candidateKey_iff candidateRoot_def hasVectorDescendant_iff
        split: option.splits)

lemma iconOf_None_iff:
  "iconOf gr n = None \<longleftrightarrow> candidateKey gr n \<noteq> None \<and> rootTree gr n = None"
  by (auto simp: iconOf_def candidateKey_def rootTree_def Let_def bind_eq_None_conv
      split: option.splits)

lemma iconLoop_None:
  "n \<in> set ns \<Longrightarrow> iconOf gr n = None \<Longrightarrow> iconLoop gr ns acc = None"
  by (induction ns arbitrary: acc) (auto simp: bind_eq_None_conv)

lemma passes_split:
  "passes gr n \<longleftrightarrow> candidateKey gr n \<noteq> None \<and> storedVisible gr n"
  by (auto simp: passes_def candidateKey_def storedVisible_def Let_def split: option.splits)

text \<open>
  Claim C9, as amended. A record passes the tests made before its shape tree is built
  exactly when it satisfies \<open>candidateRoot\<close>: type \<^verbatim>\<open>FRAME\<close>; a size whose width and
  height, each rounded to the nearest integer, are at most 32; an identifier; and a
  descendant of type \<^verbatim>\<open>VECTOR\<close> or \<^verbatim>\<open>BOOLEAN_OPERATION\<close> at most five hops down. The
  classifier returns exactly when the shape tree of every candidate root returns, and
  its icons are then, in input order, the candidate roots whose stored record is not
  a transparent background.
\<close>

theorem icon_candidates:
  "(nodeType n = Some ''FRAME'' \<and> candidateKey gr n \<noteq> None) = candidateRoot gr n
   \<and> map_option (map iconGuid) (findIcons nodes)
     = (if \<forall>n\<in>set nodes. candidateRoot (buildMaps nodes) n \<longrightarrow> rootTree (buildMaps nodes) n \<noteq> None
        then Some (List.map_filter (\<lambda>n. guidKey (guid n))
                     (filter (\<lambda>n. candidateRoot (buildMaps nodes) n \<and> storedVisible (buildMaps nodes) n)
                        nodes))
        else None)"
proof -
  let ?G = "buildMaps nodes"
  let ?frames = "filter (\<lambda>n. nodeType n = Some ''FRAME'') nodes"
  have sel: "filter (passes ?G) ?frames
             = filter (\<lambda>n. candidateRoot ?G n \<and> storedVisible ?G n) nodes"
  proof -
    have "(nodeType x = Some ''FRAME'' \<and> passes ?G x)
          = (candidateRoot ?G x \<and> storedVisible ?G x)" for x
      unfolding passes_split candidateKey_root[of x ?G, symmetric] by blast
    then show ?thesis by (simp add: conj_commute)
  qed
  have main: "map_option (map iconGuid) (findIcons nodes)
     = (if \<forall>n\<in>set nodes. candidateRoot ?G n \<longrightarrow> rootTree ?G n \<noteq> None
        then Some (List.map_filter (\<lambda>n. guidKey (guid n))
                     (filter (\<lambda>n. candidateRoot ?G n \<and> storedVisible ?G n) nodes))
        else None)"
  proof (cases "\<forall>n\<in>set nodes. candidateRoot ?G n \<longrightarrow> rootTree ?G n \<noteq> None")
    case True
    have "\<exists>r. iconOf ?G n = Some r" if "n \<in> set ?frames" for n
    proof -
      from that have f: "n \<in> set nodes" "nodeType n = Some ''FRAME''" by auto
      have "iconOf ?G n \<noteq> None"
        using True f candidateKey_root[of n ?G] by (auto simp: iconOf_None_iff)
      then show ?thesis by auto
    qed
    then obtain r where r: "iconLoop ?G ?frames [] = Some r"
      using iconLoop_total[of ?frames ?G "[]"] by blast
    from iconLoop_guids[OF r] have "map iconGuid r
          = List.map_filter (\<lambda>n. guidKey (guid n)) (filter (passes ?G) ?frames)" by simp
    with r True show ?thesis unfolding findIcons_def sel by simp
  next
    case False
    then obtain n where n: "n \<in> set nodes" "candidateRoot ?G n" "rootTree ?G n = None" by blast
    then have "n \<in> set ?frames" "iconOf ?G n = None"
      using candidateKey_root[of n ?G] by (auto simp: iconOf_None_iff candidateRoot_def)
    from iconLoop_None[OF this] False show ?thesis unfolding findIcons_def by simp
  qed
  from candidateKey_root[of n gr] main show ?thesis by blast
qed

theorem icon_candidates_witness:
  "candidateRoot (buildMaps wideFrame) (sized (mkNode 7 None ''FRAME'' []) (129 / 4) 10)
   \<and> rootTree (buildMaps wideFrame) (sized (mkNode 7 None ''FRAME'' []) (129 / 4) 10) \<noteq> None
   \<and> List.map_filter (\<lambda>n. guidKey (guid n))
        (filter (\<lambda>n. candidateRoot (buildMaps wideFrame) n \<and> storedVisible (buildMaps wideFrame) n)
           wideFrame) = [(0, 7)]"
proof -
  have "hasVectorDescendant (buildMaps wideFrame) (0, 7) (Suc 4)"
    by (rule hasVectorDescendant_child[where c = "mkNode 8 (Some 7) ''VECTOR'' []"])
       (simp_all add: wideFrame_graph)
  then have hv: "hasVectorDescendant (buildMaps wideFrame) (0, 7) 5" by simp
  have ck: "candidateKey (buildMaps wideFrame) (sized (mkNode 7 None ''FRAME'' []) (129 / 4) 10) \<noteq> None"
    by (simp add: candidateKey_def mathRound_wide hv)
  show ?thesis
    using icon_candidates[of "sized (mkNode 7 None ''FRAME'' []) (129 / 4) 10" "buildMaps wideFrame" wideFrame]
      ck wideFrame_icons
    by (auto simp: wideFrame_def split: if_splits)
qed

lemma firstChildColor_rule:
  assumes "\<And>c. c \<in> set cs \<Longrightarrow> extractPrimaryColor c = primaryColorRule c"
  shows "firstChildColor skip cs
         = firstYield (\<lambda>c. \<not> (skip \<and> shapeType c = Some ''ROUNDED_RECTANGLE''))
             (map (\<lambda>c. (c, primaryColorRule c)) cs)"
  using assms
proof (induction cs)
  case Nil
  then show ?case by (simp add: firstYield_def)
next
  case (Cons c cs)
  have c: "extractPrimaryColor c = primaryColorRule c" using Cons.prems by simp
  have r: "firstChildColor skip cs
         = firstYield (\<lambda>c. \<not> (skip \<and> shapeType c = Some ''ROUNDED_RECTANGLE''))
             (map (\<lambda>c. (c, primaryColorRule c)) cs)"
    using Cons.IH Cons.prems by simp
  show ?case
    using r by (auto simp: c firstYield_def yields_def split: option.splits)
qed

lemma firstYield_yields: "firstYield visit rs \<noteq> None \<Longrightarrow> yields (firstYield visit rs)"
  unfolding firstYield_def
  by (auto split: option.splits prod.splits dest: find_Some_iff[THEN iffD1])

lemma extractPrimaryColor_rule: "extractPrimaryColor t = primaryColorRule t"
proof (induction t)
  case (Shape ty nm g sz pos fs ss opa hb cs)
  have ih: "\<And>c. c \<in> set cs \<Longrightarrow> extractPrimaryColor c = primaryColorRule c"
    using Shape.IH by simp
  note t = firstChildColor_rule[OF ih, of cs True, simplified]
  note f = firstChildColor_rule[OF ih, of cs False, simplified]
  have hd0: "xs \<noteq> [] \<Longrightarrow> xs ! 0 = hd xs" for xs :: "'a list" by (cases xs) simp_all
  show ?case
    using firstYield_yields[of "\<lambda>c. shapeType c \<noteq> Some ''ROUNDED_RECTANGLE''" "map (\<lambda>c. (c, primaryColorRule c)) cs"]
      firstYield_yields[of "\<lambda>c. True" "map (\<lambda>c. (c, primaryColorRule c)) cs"]
    by (auto simp: t f Let_def hd0 yields_def split: option.splits)
qed

text \<open>
  Claim C5. The primary colour of a shape tree is the one the priority rule gives, for
  every shape tree; a boolean-combine root with fill \<open>#1677FF\<close> over a path-shape
  child with fill \<open>#1F8FFB\<close> gives \<open>#1677FF\<close>, and a path-shape with no fill and a
  stroke \<open>#070828\<close> gives \<open>#070828\<close>.
\<close>

theorem primary_color_priority:
  "extractPrimaryColor t = primaryColorRule t
   \<and> extractPrimaryColor
        (Shape (Some ''BOOLEAN_OPERATION'') nm g sz pos
           (\<lparr>fillColor = ''#1677FF'', fillOpacity = x\<rparr> # fs) ss opa hb
           [Shape (Some ''VECTOR'') nm' g' sz' pos'
              [\<lparr>fillColor = ''#1F8FFB'', fillOpacity = x'\<rparr>] ss' opa' hb' cs'])
      = Some ''#1677FF''
   \<and> extractPrimaryColor
        (Shape (Some ''VECTOR'') nm g sz pos [] (\<lparr>strokeColor = ''#070828'', strokeWidth = w\<rparr> # ss)
           opa hb cs)
      = Some ''#070828''"
  using extractPrimaryColor_rule[of t] by simp

end
